theory Spec2Isabelle
  imports Complex_Main "HOL-Library.Sublist"
begin

section \<open>Python values and string helpers\<close>

text \<open>
  The records endpoint of \<^verbatim>\<open>server.py\<close> relays JSON. A JSON value as Python's
  \<^verbatim>\<open>response.json()\<close> delivers it: \<^verbatim>\<open>None\<close>, a bool, an int, a str, a list
  or a dict. Non-integer numbers are left out of the model. Strings are lists of
  8-bit characters, so \<^verbatim>\<open>len\<close> counts characters of ASCII text, and
  \<^verbatim>\<open>str.lower\<close> is modelled on the ASCII letters.
\<close>

datatype json =
    JNull
  | JBool bool
  | JInt int
  | JStr string
  | JArr "json list"
  | JObj "(string \<times> json) list"

text \<open>Truthiness of an optional string: \<^verbatim>\<open>None\<close> and \<^verbatim>\<open>''\<close> are falsy.\<close>

fun truthy :: "string option \<Rightarrow> bool" where
  "truthy None = False"
| "truthy (Some s) = (s \<noteq> [])"

text \<open>\<^verbatim>\<open>s.startswith(p)\<close>.\<close>

definition startswith :: "string \<Rightarrow> string \<Rightarrow> bool" where
  "startswith s p = (take (length p) s = p)"

text \<open>\<^verbatim>\<open>p in s\<close> for strings: \<open>p\<close> occurs in \<open>s\<close> as a contiguous substring.\<close>

fun str_contains :: "string \<Rightarrow> string \<Rightarrow> bool" where
  "str_contains p [] = (p = [])"
| "str_contains p (c # cs) = (startswith (c # cs) p \<or> str_contains p cs)"

definition lower_char :: "char \<Rightarrow> char" where
  "lower_char c =
     (case map_of (zip ''ABCDEFGHIJKLMNOPQRSTUVWXYZ'' ''abcdefghijklmnopqrstuvwxyz'') c of
        Some d \<Rightarrow> d
      | None \<Rightarrow> c)"

definition lower :: "string \<Rightarrow> string" where
  "lower s = map lower_char s"

text \<open>\<^verbatim>\<open>sep.join(xs)\<close>.\<close>

fun join :: "string \<Rightarrow> string list \<Rightarrow> string" where
  "join sep [] = []"
| "join sep [x] = x"
| "join sep (x # y # ys) = x @ sep @ join sep (y # ys)"

subsection \<open>Decimal numerals\<close>

definition digit_char :: "nat \<Rightarrow> char" where
  "digit_char d = ''0123456789'' ! (d mod 10)"

fun digits_of :: "nat \<Rightarrow> string" where
  "digits_of n = (if n < 10 then [digit_char n] else digits_of (n div 10) @ [digit_char n])"

declare digits_of.simps [simp del]

text \<open>\<^verbatim>\<open>str(n)\<close> for an int.\<close>

definition str_int :: "int \<Rightarrow> string" where
  "str_int i = (if i < 0 then CHR ''-'' # digits_of (nat (- i)) else digits_of (nat i))"

text \<open>The f-string rendering of an optional value: \<^verbatim>\<open>None\<close> prints as \<^verbatim>\<open>None\<close>.\<close>

definition fmt_str :: "string option \<Rightarrow> string" where
  "fmt_str s = (case s of None \<Rightarrow> ''None'' | Some t \<Rightarrow> t)"

definition fmt_int :: "int option \<Rightarrow> string" where
  "fmt_int i = (case i of None \<Rightarrow> ''None'' | Some n \<Rightarrow> str_int n)"

text \<open>The format \<^verbatim>\<open>{n:,}\<close>: a comma before every group of three digits, from the right.\<close>

fun group3 :: "string \<Rightarrow> string" where
  "group3 (a # b # c # d # rest) = a # b # c # CHR '','' # group3 (d # rest)"
| "group3 s = s"

definition fmt_thousands :: "int \<Rightarrow> string" where
  "fmt_thousands i =
     (if i < 0 then CHR ''-'' # rev (group3 (rev (digits_of (nat (- i)))))
      else rev (group3 (rev (digits_of (nat i)))))"

subsection \<open>\<^verbatim>\<open>int(s)\<close>\<close>

text \<open>
  Python's \<^verbatim>\<open>int(s)\<close> on a string, base ten: surrounding whitespace is stripped, one
  sign is allowed, and the digits may be separated by single underscores. \<open>None\<close> is
  the \<^verbatim>\<open>ValueError\<close>. The white space that \<^verbatim>\<open>int\<close> strips is the ASCII one and, of the
  other characters below U+0100, the next-line character U+0085 and the no-break space
  U+00A0. Characters from U+0100 on (further white space and the decimal digits of other
  scripts) are outside the type \<open>char\<close>, and the interpreter's limit on the length of a
  numeral is not modelled.
\<close>

definition is_space :: "char \<Rightarrow> bool" where
  "is_space c = (c \<in> set [CHR '' '', CHR 0x09, CHR 0x0A, CHR 0x0B, CHR 0x0C, CHR 0x0D,
                           CHR 0x85, CHR 0xA0])"

definition strip :: "string \<Rightarrow> string" where
  "strip s = rev (dropWhile is_space (rev (dropWhile is_space s)))"

definition digit_val :: "char \<Rightarrow> nat option" where
  "digit_val c = map_of (zip ''0123456789'' [0, 1, 2, 3, 4, 5, 6, 7, 8, 9]) c"

fun digits_value :: "nat \<Rightarrow> string \<Rightarrow> nat option" where
  "digits_value acc [] = Some acc"
| "digits_value acc (c # cs) =
     (case digit_val c of
        Some d \<Rightarrow> digits_value (10 * acc + d) cs
      | None \<Rightarrow>
          (if c = CHR ''_'' then
             (case cs of
                [] \<Rightarrow> None
              | d # _ \<Rightarrow> (if digit_val d = None then None else digits_value acc cs))
           else None))"

definition py_int :: "string \<Rightarrow> int option" where
  "py_int s =
     (let t = strip s;
          neg = (case t of c # _ \<Rightarrow> c = CHR ''-'' | [] \<Rightarrow> False);
          body = (case t of c # cs \<Rightarrow> (if c = CHR ''-'' \<or> c = CHR ''+'' then cs else t) | [] \<Rightarrow> [])
      in case body of
           [] \<Rightarrow> None
         | c # _ \<Rightarrow>
             (if digit_val c = None then None
              else map_option (\<lambda>n. if neg then - int n else int n) (digits_value 0 body)))"

section \<open>Configuration (\<^verbatim>\<open>config.py\<close>)\<close>

record config =
  CLAUDE_API_TIMEOUT :: int
  AIRTABLE_API_TIMEOUT :: int
  MAX_RECORDS_PER_REQUEST :: int
  MAX_TOTAL_RECORDS :: int
  MAX_PAGINATION_PAGES :: nat

definition Config :: config where
  "Config = \<lparr> CLAUDE_API_TIMEOUT = 30, AIRTABLE_API_TIMEOUT = 15,
     MAX_RECORDS_PER_REQUEST = 100, MAX_TOTAL_RECORDS = 10000, MAX_PAGINATION_PAGES = 50 \<rparr>"

definition DevelopmentConfig :: config where
  "DevelopmentConfig = Config"

definition ProductionConfig :: config where
  "ProductionConfig = Config \<lparr> MAX_TOTAL_RECORDS := 5000 \<rparr>"

definition TestConfig :: config where
  "TestConfig = Config \<lparr> MAX_TOTAL_RECORDS := 100, MAX_PAGINATION_PAGES := 5 \<rparr>"

text \<open>\<^verbatim>\<open>get_config\<close>, on the lower-cased value of \<^verbatim>\<open>FLASK_ENV\<close>.\<close>

definition get_config :: "string \<Rightarrow> config" where
  "get_config env =
     (if lower env = ''development'' then DevelopmentConfig
      else if lower env = ''testing'' then TestConfig
      else ProductionConfig)"

record table_config =
  tc_id :: string
  tc_name :: string
  date_field :: string
  sort_direction :: string
  tc_type :: string
  is_legacy :: bool

definition FRESH_TABLES :: "(string \<times> string \<times> string \<times> string \<times> string) list" where
  "FRESH_TABLES =
     [(''ghl'', ''tblcdFVUC3zJrbmNf'', ''Fresh GHL'', ''Date Created'', ''desc''),
      (''pos'', ''tblHyyZHUsTdEb3BL'', ''Fresh POS'', ''Created'', ''desc''),
      (''meta_ads'', ''tbl7mWcQBNA2TQAjc'', ''Fresh Meta Ads'', ''Reporting ends'', ''desc''),
      (''meta_ads_summary'', ''tblIQXVSwtwq1P4W7'', ''Meta Ads Summary'', ''Reporting ends'', ''desc''),
      (''meta_ads_simplified'', ''tblA6ABFBTURfyZx9'', ''Meta Ads Simplified'', ''period'', ''desc''),
      (''google_ads'', ''tblRBXdh6L6zm9CZn'', ''Fresh Google Ads'', ''Date'', ''desc'')]"

definition LEGACY_TABLES :: "(string \<times> string \<times> string \<times> string \<times> string) list" where
  "LEGACY_TABLES =
     [(''ghl'', ''tblv400k6UM7FE0OU'', ''Legacy GHL'', ''Date Created'', ''desc''),
      (''pos'', ''tbloHzN9XdQLc8xvS'', ''Legacy POS'', ''Created'', ''desc''),
      (''meta_ads'', ''tbldOjx6thhdAgaUB'', ''Legacy Meta Ads Full'', ''Reporting starts'', ''desc''),
      (''google_ads'', ''tbl4QdehJluhBSSVh'', ''Legacy Google Ads'', ''Date'', ''desc'')]"

fun find_table :: "bool \<Rightarrow> (string \<times> string \<times> string \<times> string \<times> string) list \<Rightarrow> string option
    \<Rightarrow> table_config option" where
  "find_table leg [] table_id = None"
| "find_table leg ((ty, i, n, f, d) # rest) table_id =
     (if Some i = table_id
      then Some \<lparr> tc_id = i, tc_name = n, date_field = f, sort_direction = d,
                  tc_type = ty, is_legacy = leg \<rparr>
      else find_table leg rest table_id)"

definition get_table_config :: "string option \<Rightarrow> table_config option" where
  "get_table_config table_id =
     (case find_table False FRESH_TABLES table_id of
        Some c \<Rightarrow> Some c
      | None \<Rightarrow> find_table True LEGACY_TABLES table_id)"

section \<open>Parameter validation (\<^verbatim>\<open>validate_airtable_params\<close>)\<close>

record validated_params =
  base_id :: "string option"
  table_id :: "string option"
  max_records :: "int option"
  filter_formula :: "string option"

definition dangerous_patterns :: "string list" where
  "dangerous_patterns = [''javascript:'', ''eval('', ''script>'', ''DROP TABLE'', ''DELETE FROM'']"

definition base_id_errors :: "string option \<Rightarrow> string list" where
  "base_id_errors b =
     (if \<not> truthy b then [''baseId is required'']
      else if \<not> startswith (fmt_str b) ''app'' \<or> length (fmt_str b) \<noteq> 17
           then [''baseId must start with 'app' and be 17 characters long'']
      else [])"

definition table_id_errors :: "string option \<Rightarrow> string list" where
  "table_id_errors t =
     (if \<not> truthy t then [''tableId is required'']
      else if \<not> startswith (fmt_str t) ''tbl'' \<or> length (fmt_str t) \<noteq> 17
           then [''tableId must start with 'tbl' and be 17 characters long'']
      else [])"

text \<open>The value left in \<^verbatim>\<open>max_records\<close> and the errors of the \<^verbatim>\<open>maxRecords\<close> block.\<close>

definition max_records_value :: "string option \<Rightarrow> int option" where
  "max_records_value m = (if truthy m then py_int (fmt_str m) else None)"

definition max_records_errors :: "config \<Rightarrow> string option \<Rightarrow> string list" where
  "max_records_errors cfg m =
     (if truthy m then
        (case py_int (fmt_str m) of
           None \<Rightarrow> [''maxRecords must be a valid integer'']
         | Some n \<Rightarrow>
             (if n \<le> 0 then [''maxRecords must be a positive integer'']
              else if n > MAX_TOTAL_RECORDS cfg
                   then [''maxRecords cannot exceed '' @ fmt_thousands (MAX_TOTAL_RECORDS cfg)
                           @ '' (configured limit)'']
              else []))
      else [])"

definition filter_errors :: "string option \<Rightarrow> string list" where
  "filter_errors f =
     (if truthy f then
        (let filter_lower = lower (fmt_str f)
         in map (\<lambda>pattern. ''Filter formula contains potentially dangerous pattern: '' @ pattern)
              (filter (\<lambda>pattern. str_contains pattern filter_lower) dangerous_patterns)
            @ (if length (fmt_str f) > 1000
               then [''Filter formula is too long (max 1000 characters)''] else []))
      else [])"

text \<open>
  The pair \<^verbatim>\<open>(validated_params, error_message)\<close> of the source has exactly one
  component that is not \<^verbatim>\<open>None\<close>; it is the sum \<open>Inl error_message\<close> or
  \<open>Inr validated_params\<close>.
\<close>

definition validate_airtable_params ::
    "config \<Rightarrow> string option \<Rightarrow> string option \<Rightarrow> string option \<Rightarrow> string option
     \<Rightarrow> string + validated_params" where
  "validate_airtable_params cfg b t m f =
     (let errors = base_id_errors b @ table_id_errors t @ max_records_errors cfg m @ filter_errors f
      in if errors \<noteq> [] then Inl (join ''; '' errors)
         else Inr \<lparr> base_id = b, table_id = t, max_records = max_records_value m,
                    filter_formula = f \<rparr>)"

section \<open>Responses\<close>

text \<open>
  A flattened record is a dict from field name to value. The response of the records
  endpoint is the dict built at the end of \<^verbatim>\<open>get_airtable_records\<close>; its
  \<^verbatim>\<open>offset\<close> entry is always \<^verbatim>\<open>None\<close>.
\<close>

type_synonym flat_record = "string \<rightharpoonup> json"

record pagination_info =
  total_records :: int
  pages_fetched :: int
  server_side_pagination :: bool
  duplicates_removed :: int

record response_data =
  records :: "flat_record list"
  offset :: "string option"
  pagination_info :: pagination_info

text \<open>\<^verbatim>\<open>jsonify(body), status\<close>: the body is an error message or the data.\<close>

datatype http_body = ErrorBody string | DataBody response_data

type_synonym http_response = "http_body \<times> nat"

section \<open>The cache (\<^verbatim>\<open>SimpleCache\<close>)\<close>

text \<open>
  The two dicts of the class. The hash \<^verbatim>\<open>hashlib.md5(..).hexdigest()\<close> is a parameter
  \<open>md5\<close> of the operations; the clock reading \<^verbatim>\<open>time.time()\<close> is the parameter
  \<open>now\<close>, in seconds. A clock reading is a double; it is modelled by the real number
  that it denotes.
\<close>

subsection \<open>Double-precision subtraction\<close>

text \<open>
  \<^verbatim>\<open>time.time() - cache_time\<close> is the subtraction of two doubles: the exact difference,
  rounded to the nearest double, ties to the even significand. A double has a
  significand of 53 bits and a binary exponent from -1022 to 1023, so in the binade
  \<open>2\<^sup>e \<le> \<bar>x\<bar> < 2\<^sup>e\<^sup>+\<^sup>1\<close> the doubles are the multiples of \<open>2\<^sup>e\<^sup>-\<^sup>5\<^sup>2\<close>; below
  \<open>2\<^sup>-\<^sup>1\<^sup>0\<^sup>2\<^sup>2\<close> they are the multiples of \<open>2\<^sup>-\<^sup>1\<^sup>0\<^sup>7\<^sup>4\<close>.

  \<open>round_half_even\<close> rounds a real number to the nearest integer, ties to even.
  \<open>exponent\<close> finds the binade of a number, searching upwards from -1022 and
  stopping at 1023. A difference of \<open>2\<^sup>1\<^sup>0\<^sup>2\<^sup>4\<close> or more, which the code computes as
  infinity, is rounded on the grid of the top binade: the result is at least
  \<open>2\<^sup>1\<^sup>0\<^sup>2\<^sup>4\<close> in magnitude, and its comparison with a time-to-live below \<open>2\<^sup>1\<^sup>0\<^sup>2\<^sup>4\<close>
  in magnitude comes out as the comparison of the infinity does.
\<close>

definition round_half_even :: "real \<Rightarrow> int" where
  "round_half_even q =
     (let n = \<lfloor>q\<rfloor>; d = q - of_int n
      in if d < 1 / 2 then n else if 1 / 2 < d then n + 1 else if even n then n else n + 1)"

fun binade_from :: "nat \<Rightarrow> int \<Rightarrow> real \<Rightarrow> int" where
  "binade_from 0 e x = e"
| "binade_from (Suc k) e x = (if x < 2 powi (e + 1) then e else binade_from k (e + 1) x)"

definition exponent :: "real \<Rightarrow> int" where
  "exponent x = binade_from 2045 (- 1022) \<bar>x\<bar>"

definition round_double :: "real \<Rightarrow> real" where
  "round_double x =
     (let u = 2 powi (exponent x - 52) in of_int (round_half_even (x / u)) * u)"

definition float_sub :: "real \<Rightarrow> real \<Rightarrow> real" where
  "float_sub x y = round_double (x - y)"

subsection \<open>The class\<close>

record SimpleCache =
  c_cache :: "string \<rightharpoonup> response_data"
  c_timestamps :: "string \<rightharpoonup> real"

definition SimpleCache_init :: SimpleCache where
  "SimpleCache_init = \<lparr> c_cache = Map.empty, c_timestamps = Map.empty \<rparr>"

definition generate_key ::
    "(string \<Rightarrow> string) \<Rightarrow> string option \<Rightarrow> string option \<Rightarrow> string option \<Rightarrow> int option
     \<Rightarrow> string" where
  "generate_key md5 b t f m =
     md5 (fmt_str b @ '':'' @ fmt_str t @ '':'' @ (if truthy f then fmt_str f else [])
          @ '':'' @ fmt_int m)"

text \<open>
  The exceptions that the outer \<^verbatim>\<open>except Exception\<close> of the handler catches: a missing
  key, an unhashable identifier, and the \<^verbatim>\<open>JSONDecodeError\<close> of \<^verbatim>\<open>response.json()\<close>.
\<close>

datatype py_exception = KeyError string | TypeError string | JSONDecodeError string

text \<open>\<^verbatim>\<open>str(e)\<close>: a \<^verbatim>\<open>KeyError\<close> prints the repr of its key.\<close>

fun str_exception :: "py_exception \<Rightarrow> string" where
  "str_exception (KeyError k) = [CHR 0x27] @ k @ [CHR 0x27]"
| "str_exception (TypeError s) = s"
| "str_exception (JSONDecodeError s) = s"

text \<open>
  \<^verbatim>\<open>SimpleCache.get\<close>: the result, or the exception raised, and the cache after the
  call. The age of the entry is the double-precision difference of the clock reading
  and the time stamp; its comparison with the integer \<^verbatim>\<open>ttl_seconds\<close> is exact.
  The two \<^verbatim>\<open>del\<close> statements remove the key from both dicts; the second one
  raises \<^verbatim>\<open>KeyError\<close> when \<^verbatim>\<open>_timestamps\<close> lacks the key, the first having removed the
  entry already. Every operation of the class keeps the two dicts on the same keys, so
  from the empty cache this exception is never raised.
\<close>

definition cache_get ::
    "(string \<Rightarrow> string) \<Rightarrow> SimpleCache \<Rightarrow> real \<Rightarrow> string option \<Rightarrow> string option
     \<Rightarrow> string option \<Rightarrow> int option \<Rightarrow> int
     \<Rightarrow> (py_exception + response_data option) \<times> SimpleCache" where
  "cache_get md5 c now b t f m ttl_seconds =
     (let cache_key = generate_key md5 b t f m
      in case c_cache c cache_key of
           None \<Rightarrow> (Inr None, c)
         | Some data \<Rightarrow>
             (let cache_time = (case c_timestamps c cache_key of None \<Rightarrow> 0 | Some ts \<Rightarrow> ts)
              in if float_sub now cache_time > real_of_int ttl_seconds
                 then (case c_timestamps c cache_key of
                         None \<Rightarrow>
                           (Inl (KeyError cache_key),
                            c \<lparr> c_cache := (c_cache c)(cache_key := None) \<rparr>)
                       | Some ts \<Rightarrow>
                           (Inr None,
                            c \<lparr> c_cache := (c_cache c)(cache_key := None),
                                c_timestamps := (c_timestamps c)(cache_key := None) \<rparr>))
                 else (Inr (Some data), c)))"

text \<open>\<^verbatim>\<open>SimpleCache.set\<close>.\<close>

definition cache_set ::
    "(string \<Rightarrow> string) \<Rightarrow> SimpleCache \<Rightarrow> real \<Rightarrow> string option \<Rightarrow> string option
     \<Rightarrow> response_data \<Rightarrow> string option \<Rightarrow> int option \<Rightarrow> SimpleCache" where
  "cache_set md5 c now b t data f m =
     (let cache_key = generate_key md5 b t f m
      in c \<lparr> c_cache := (c_cache c)(cache_key \<mapsto> data),
              c_timestamps := (c_timestamps c)(cache_key \<mapsto> now) \<rparr>)"

definition cache_clear :: "SimpleCache \<Rightarrow> SimpleCache" where
  "cache_clear c = c \<lparr> c_cache := Map.empty, c_timestamps := Map.empty \<rparr>"

section \<open>The upstream\<close>

text \<open>
  The call \<^verbatim>\<open>requests.get\<close> either raises a \<^verbatim>\<open>requests.exceptions.RequestException\<close>
  (\<^verbatim>\<open>Timeout\<close>, \<^verbatim>\<open>ConnectionError\<close> or another one), with the text that \<^verbatim>\<open>str(e)\<close>
  gives, or returns a reply. \<^verbatim>\<open>HTTPError\<close> is the exception that
  \<^verbatim>\<open>raise_for_status\<close> raises on a reply, with the status code.
\<close>

datatype request_exception =
    Timeout string
  | ConnectionError string
  | HTTPError nat string
  | OtherRequestException string

fun str_request_exception :: "request_exception \<Rightarrow> string" where
  "str_request_exception (Timeout s) = s"
| "str_request_exception (ConnectionError s) = s"
| "str_request_exception (HTTPError code s) = s"
| "str_request_exception (OtherRequestException s) = s"

record airtable_record =
  rec_id :: "json option"
  rec_createdTime :: "json option"
  rec_fields :: "(string \<rightharpoonup> json) option"

record airtable_page =
  page_records :: "airtable_record list"
  page_offset :: "string option"

text \<open>
  A reply of the upstream: its status code, reason phrase and URL, and what
  \<^verbatim>\<open>response.json()\<close> makes of its body, either the text of the \<^verbatim>\<open>JSONDecodeError\<close>
  that it raises or the page. In a page, \<^verbatim>\<open>records\<close> is the list
  \<^verbatim>\<open>data.get('records', [])\<close> and \<^verbatim>\<open>offset\<close> is \<^verbatim>\<open>data.get('offset')\<close>. A key
  that an upstream record lacks is \<open>None\<close> here and a \<^verbatim>\<open>KeyError\<close> in the handler.
  A body that parses is taken to be a JSON object whose records are objects and whose
  offset, when present, is a string.
\<close>

record upstream_reply =
  status_code :: nat
  reason :: string
  url :: string
  json_body :: "string + airtable_page"

record page_params =
  pp_offset :: "string option"
  pp_maxRecords :: "int option"
  pp_filterByFormula :: "string option"
  pp_sort_field :: "string option"
  pp_sort_direction :: "string option"

text \<open>
  The upstream answers the request of page \<open>n\<close> (counted from 1) with parameters \<open>p\<close>
  by \<open>upstream n p\<close>: any behaviour of the remote service is such a function.
\<close>

type_synonym upstream = "nat \<Rightarrow> page_params \<Rightarrow> request_exception + upstream_reply"

text \<open>
  \<^verbatim>\<open>Response.raise_for_status\<close> of the requests library: an \<^verbatim>\<open>HTTPError\<close> for a status
  from 400 to 599, nothing for any other status.
\<close>

definition raise_for_status :: "upstream_reply \<Rightarrow> request_exception option" where
  "raise_for_status response =
     (if 400 \<le> status_code response \<and> status_code response < 500
      then Some (HTTPError (status_code response)
                  (str_int (int (status_code response)) @ '' Client Error: '' @ reason response
                   @ '' for url: '' @ url response))
      else if 500 \<le> status_code response \<and> status_code response < 600
      then Some (HTTPError (status_code response)
                  (str_int (int (status_code response)) @ '' Server Error: '' @ reason response
                   @ '' for url: '' @ url response))
      else None)"

text \<open>
  The \<^verbatim>\<open>try\<close> block of the loop body: \<^verbatim>\<open>requests.get\<close> followed by
  \<^verbatim>\<open>response.raise_for_status()\<close>. \<open>Inl\<close> is the exception that the block raises.
\<close>

definition page_request :: "upstream \<Rightarrow> nat \<Rightarrow> page_params \<Rightarrow> request_exception + upstream_reply" where
  "page_request up n pp =
     (case up n pp of
        Inl e \<Rightarrow> Inl e
      | Inr response \<Rightarrow>
          (case raise_for_status response of
             Some e \<Rightarrow> Inl e
           | None \<Rightarrow> Inr response))"

section \<open>Flattening and the pagination loop\<close>

text \<open>
  The dict display \<^verbatim>\<open>{'id': record['id'], 'createdTime': record['createdTime'],
  **record['fields']}\<close>: the three subscripts are evaluated in this order, and the
  entries of \<^verbatim>\<open>fields\<close> are merged last.
\<close>

definition flatten_record :: "airtable_record \<Rightarrow> py_exception + flat_record" where
  "flatten_record r =
     (case rec_id r of
        None \<Rightarrow> Inl (KeyError ''id'')
      | Some i \<Rightarrow>
          (case rec_createdTime r of
             None \<Rightarrow> Inl (KeyError ''createdTime'')
           | Some ct \<Rightarrow>
               (case rec_fields r of
                  None \<Rightarrow> Inl (KeyError ''fields'')
                | Some fs \<Rightarrow> Inr ([''id'' \<mapsto> i, ''createdTime'' \<mapsto> ct] ++ fs))))"

text \<open>The \<^verbatim>\<open>for record in page_records\<close> loop, appending to \<^verbatim>\<open>all_records\<close>.\<close>

fun flatten_page :: "flat_record list \<Rightarrow> airtable_record list \<Rightarrow> py_exception + flat_record list" where
  "flatten_page all_records [] = Inr all_records"
| "flatten_page all_records (r # rs) =
     (case flatten_record r of
        Inl e \<Rightarrow> Inl e
      | Inr fr \<Rightarrow> flatten_page (all_records @ [fr]) rs)"

definition max_pages :: nat where
  "max_pages = 100"

text \<open>The parameters of one page request, as the loop body builds them.\<close>

definition build_page_params ::
    "string option \<Rightarrow> int option \<Rightarrow> string option \<Rightarrow> nat \<Rightarrow> string option \<Rightarrow> page_params" where
  "build_page_params tid maxrec filt n_all off =
     \<lparr> pp_offset = (if truthy off then off else None),
       pp_maxRecords = (case maxrec of None \<Rightarrow> None | Some m \<Rightarrow> Some (min 100 (m - int n_all))),
       pp_filterByFormula = (if truthy filt then filt else None),
       pp_sort_field = map_option date_field (get_table_config tid),
       pp_sort_direction = map_option sort_direction (get_table_config tid) \<rparr>"

text \<open>
  How the \<^verbatim>\<open>while\<close> loop ends: by the early \<^verbatim>\<open>return\<close> of the 502 response, by an
  exception that the outer handler catches (\<^verbatim>\<open>response.json()\<close> and the flattening
  stand outside the \<^verbatim>\<open>try\<close> block), or by leaving the loop with the
  accumulated records and the page count. The second component of the result is the
  log of the page requests that were sent, in order.
\<close>

datatype loop_outcome =
    Returned http_response
  | Raised py_exception
  | Finished "flat_record list" nat

function pagination_loop ::
    "upstream \<Rightarrow> string option \<Rightarrow> int option \<Rightarrow> string option
     \<Rightarrow> flat_record list \<Rightarrow> string option \<Rightarrow> nat \<Rightarrow> page_params list
     \<Rightarrow> loop_outcome \<times> page_params list" where
  "pagination_loop up tid maxrec filt all_records off page_count sent =
     (if page_count < max_pages then
        (let page_count' = page_count + 1
         in if (case maxrec of None \<Rightarrow> False | Some m \<Rightarrow> m - int (length all_records) \<le> 0)
            then (Finished all_records page_count', sent)
            else
              (let pp = build_page_params tid maxrec filt (length all_records) off;
                   sent' = sent @ [pp]
               in case page_request up page_count' pp of
                    Inl e \<Rightarrow>
                      (Returned (ErrorBody (''Data service error: '' @ str_request_exception e), 502),
                       sent')
                  | Inr response \<Rightarrow>
                      (case json_body response of
                         Inl msg \<Rightarrow> (Raised (JSONDecodeError msg), sent')
                       | Inr data \<Rightarrow>
                           (case flatten_page all_records (page_records data) of
                              Inl ex \<Rightarrow> (Raised ex, sent')
                            | Inr all_records' \<Rightarrow>
                                (if truthy (page_offset data)
                                 then pagination_loop up tid maxrec filt all_records'
                                        (page_offset data) page_count' sent'
                                 else (Finished all_records' page_count', sent'))))))
      else (Finished all_records page_count, sent))"
  by pat_completeness auto
termination
  by (relation "measure (\<lambda>(up, tid, maxrec, filt, all_records, off, page_count, sent).
        max_pages - page_count)") auto

declare pagination_loop.simps [simp del]

section \<open>Deduplication and the route handler\<close>

text \<open>
  Membership in the Python set \<^verbatim>\<open>seen_ids\<close> goes by hash and \<^verbatim>\<open>==\<close>: \<^verbatim>\<open>True\<close>
  and \<^verbatim>\<open>1\<close> are the same element, and a list or a dict is unhashable
  (\<^verbatim>\<open>TypeError\<close>).
\<close>

datatype pykey = KNone | KInt int | KStr string

fun hash_key :: "json \<Rightarrow> py_exception + pykey" where
  "hash_key JNull = Inr KNone"
| "hash_key (JBool b) = Inr (KInt (if b then 1 else 0))"
| "hash_key (JInt i) = Inr (KInt i)"
| "hash_key (JStr s) = Inr (KStr s)"
| "hash_key (JArr xs) = Inl (TypeError (''unhashable type: 'list'' @ [CHR 0x27]))"
| "hash_key (JObj kvs) = Inl (TypeError (''unhashable type: 'dict'' @ [CHR 0x27]))"

text \<open>\<^verbatim>\<open>record.get(k)\<close>.\<close>

definition record_get :: "flat_record \<Rightarrow> string \<Rightarrow> json" where
  "record_get r k = (case r k of None \<Rightarrow> JNull | Some v \<Rightarrow> v)"

fun dedup_loop ::
    "pykey set \<Rightarrow> flat_record list \<Rightarrow> flat_record list \<Rightarrow> py_exception + flat_record list" where
  "dedup_loop seen_ids unique_records [] = Inr unique_records"
| "dedup_loop seen_ids unique_records (r # rs) =
     (case hash_key (record_get r ''id'') of
        Inl e \<Rightarrow> Inl e
      | Inr record_id \<Rightarrow>
          (if record_id \<notin> seen_ids
           then dedup_loop (insert record_id seen_ids) (unique_records @ [r]) rs
           else dedup_loop seen_ids unique_records rs))"

text \<open>The response dict, from the accumulated records and the page count.\<close>

definition build_response :: "flat_record list \<Rightarrow> flat_record list \<Rightarrow> nat \<Rightarrow> response_data" where
  "build_response all_records unique_records page_count =
     (let original_count = int (length all_records);
          all_records' = (if int (length unique_records) \<noteq> original_count
                          then unique_records else all_records)
      in \<lparr> records = all_records',
           offset = None,
           pagination_info =
             \<lparr> total_records = int (length all_records'),
               pages_fetched = int page_count,
               server_side_pagination = True,
               duplicates_removed = original_count - int (length all_records') \<rparr> \<rparr>)"

record request_args =
  baseId :: "string option"
  tableId :: "string option"
  maxRecords :: "string option"
  filterByFormula :: "string option"
  sort :: "string option"
  arg_offset :: "string option"

text \<open>
  \<^verbatim>\<open>get_airtable_records\<close>. The clock is read once by \<^verbatim>\<open>cache.get\<close> (\<open>t_get\<close>) and
  once by \<^verbatim>\<open>cache.set\<close> (\<open>t_set\<close>). The result is the response, the cache after the
  request and the log of the page requests sent upstream. The \<^verbatim>\<open>sort\<close> and
  \<^verbatim>\<open>offset\<close> arguments of the request are copied into a dict that the loop never
  reads. A cached payload is a response dict, which is never empty, so the test
  \<^verbatim>\<open>if cached_data\<close> succeeds exactly when the lookup returns a payload.
\<close>

definition get_airtable_records ::
    "config \<Rightarrow> (string \<Rightarrow> string) \<Rightarrow> upstream \<Rightarrow> real \<Rightarrow> real \<Rightarrow> SimpleCache \<Rightarrow> request_args
     \<Rightarrow> http_response \<times> SimpleCache \<times> page_params list" where
  "get_airtable_records cfg md5 up t_get t_set cache args =
     (case validate_airtable_params cfg (baseId args) (tableId args) (maxRecords args)
             (filterByFormula args) of
        Inl error_msg \<Rightarrow> ((ErrorBody (''Validation error: '' @ error_msg), 400), cache, [])
      | Inr vp \<Rightarrow>
          (let cache_ttl = (if truthy (filter_formula vp) then 60 else 300)
           in case cache_get md5 cache t_get (base_id vp) (table_id vp) (filter_formula vp)
                     (max_records vp) cache_ttl of
                (Inl e, cache1) \<Rightarrow> ((ErrorBody (str_exception e), 500), cache1, [])
              | (Inr (Some cached_data), cache1) \<Rightarrow> ((DataBody cached_data, 200), cache1, [])
              | (Inr None, cache1) \<Rightarrow>
                  (case pagination_loop up (table_id vp) (max_records vp) (filterByFormula args)
                          [] None 0 [] of
                     (Returned resp, sent) \<Rightarrow> (resp, cache1, sent)
                   | (Raised e, sent) \<Rightarrow> ((ErrorBody (str_exception e), 500), cache1, sent)
                   | (Finished all_records page_count, sent) \<Rightarrow>
                       (case dedup_loop {} [] all_records of
                          Inl e \<Rightarrow> ((ErrorBody (str_exception e), 500), cache1, sent)
                        | Inr unique_records \<Rightarrow>
                            (let response_data = build_response all_records unique_records page_count
                             in ((DataBody response_data, 200),
                                 cache_set md5 cache1 t_set (base_id vp) (table_id vp) response_data
                                   (filter_formula vp) (max_records vp),
                                 sent))))))"

text \<open>
  The cache lookup and the pagination loop of a request, as the handler calls them once
  validation has passed the request's arguments through.
\<close>

abbreviation request_lookup ::
    "(string \<Rightarrow> string) \<Rightarrow> SimpleCache \<Rightarrow> real \<Rightarrow> request_args
     \<Rightarrow> (py_exception + response_data option) \<times> SimpleCache" where
  "request_lookup md5 cache t_get args \<equiv>
     cache_get md5 cache t_get (baseId args) (tableId args) (filterByFormula args)
       (max_records_value (maxRecords args)) (if truthy (filterByFormula args) then 60 else 300)"

abbreviation request_loop :: "upstream \<Rightarrow> request_args \<Rightarrow> loop_outcome \<times> page_params list" where
  "request_loop up args \<equiv>
     pagination_loop up (tableId args) (max_records_value (maxRecords args))
       (filterByFormula args) [] None 0 []"

text \<open>
  The element of \<^verbatim>\<open>seen_ids\<close> that stands for a flattened record: the hash key of its
  \<^verbatim>\<open>record.get('id')\<close>, as \<open>dedup_loop\<close> computes it.
\<close>

definition record_key :: "flat_record \<Rightarrow> py_exception + pykey" where
  "record_key r = hash_key (record_get r ''id'')"

text \<open>
  The invariant of the cache that the handler maintains: no cached payload holds two
  records with the same identifier.
\<close>

definition cache_unique :: "SimpleCache \<Rightarrow> bool" where
  "cache_unique c = (\<forall>k d. c_cache c k = Some d \<longrightarrow> distinct (map record_key (records d)))"

text \<open>The records that a response carries; an error body carries none.\<close>

definition body_records :: "http_response \<Rightarrow> flat_record list" where
  "body_records r = (case fst r of ErrorBody msg \<Rightarrow> [] | DataBody d \<Rightarrow> records d)"

section \<open>Example inputs\<close>

text \<open>Concrete requests, upstream behaviours and cache contents, used to run the model.\<close>

definition ex_args :: "string option \<Rightarrow> string option \<Rightarrow> request_args" where
  "ex_args cap filt =
     \<lparr> baseId = Some ''appAAAAAAAAAAAAAA'', tableId = Some ''tblAAAAAAAAAAAAAA'',
       maxRecords = cap, filterByFormula = filt, sort = None, arg_offset = None \<rparr>"

definition ex_record :: "string \<Rightarrow> airtable_record" where
  "ex_record i =
     \<lparr> rec_id = Some (JStr i), rec_createdTime = Some (JStr ''2024-01-01T00:00:00.000Z''),
       rec_fields = Some Map.empty \<rparr>"

definition ex_payload :: response_data where
  "ex_payload =
     \<lparr> records = [], offset = None,
       pagination_info = \<lparr> total_records = 0, pages_fetched = 1,
         server_side_pagination = True, duplicates_removed = 0 \<rparr> \<rparr>"

text \<open>A reply with status 200 that carries the page.\<close>

definition ok_reply :: "airtable_page \<Rightarrow> upstream_reply" where
  "ok_reply page =
     \<lparr> status_code = 200, reason = ''OK'',
       url = ''https://api.airtable.com/v0/appAAAAAAAAAAAAAA/tblAAAAAAAAAAAAAA'',
       json_body = Inr page \<rparr>"

definition up_always_more :: upstream where
  "up_always_more n pp = Inr (ok_reply \<lparr> page_records = [], page_offset = Some ''next'' \<rparr>)"

definition up_two_records :: upstream where
  "up_two_records n pp =
     Inr (ok_reply \<lparr> page_records = [ex_record ''recA'', ex_record ''recB''], page_offset = None \<rparr>)"

definition up_one_then_more :: upstream where
  "up_one_then_more n pp =
     Inr (ok_reply \<lparr> page_records = [ex_record ''recA''], page_offset = Some ''next'' \<rparr>)"

definition up_unreachable :: upstream where
  "up_unreachable n pp = Inl (ConnectionError ''Connection refused'')"

text \<open>Replies with the statuses 404 and 304, neither with a body that parses.\<close>

definition up_not_found :: upstream where
  "up_not_found n pp =
     Inr \<lparr> status_code = 404, reason = ''Not Found'',
           url = ''https://api.airtable.com/v0/appAAAAAAAAAAAAAA/tblAAAAAAAAAAAAAA'',
           json_body = Inl ''Expecting value: line 1 column 1 (char 0)'' \<rparr>"

definition up_not_modified :: upstream where
  "up_not_modified n pp =
     Inr \<lparr> status_code = 304, reason = ''Not Modified'',
           url = ''https://api.airtable.com/v0/appAAAAAAAAAAAAAA/tblAAAAAAAAAAAAAA'',
           json_body = Inl ''Expecting value: line 1 column 1 (char 0)'' \<rparr>"

definition up_timeout_page2 :: upstream where
  "up_timeout_page2 n pp =
     (if n = 1
      then Inr (ok_reply \<lparr> page_records = [ex_record ''recA'', ex_record ''recB''],
                 page_offset = Some ''next'' \<rparr>)
      else Inl (Timeout ''Read timed out.''))"

definition up_duplicate :: upstream where
  "up_duplicate n pp =
     (if n = 1
      then Inr (ok_reply \<lparr> page_records = [ex_record ''recA'', ex_record ''recB''],
                 page_offset = Some ''next'' \<rparr>)
      else Inr (ok_reply \<lparr> page_records = [ex_record ''recA'', ex_record ''recC''],
                 page_offset = None \<rparr>))"

definition ex_stale_cache :: SimpleCache where
  "ex_stale_cache =
     cache_set (\<lambda>s. s) SimpleCache_init 0 (Some ''appAAAAAAAAAAAAAA'')
       (Some ''tblAAAAAAAAAAAAAA'') ex_payload None None"

text \<open>An upstream that returns at most as many records as the request asks for.\<close>

definition up_honours_cap :: upstream where
  "up_honours_cap n pp =
     Inr (ok_reply \<lparr> page_records =
             take (case pp_maxRecords pp of None \<Rightarrow> 2 | Some m \<Rightarrow> nat m)
               [ex_record ''recA'', ex_record ''recB''],
           page_offset = None \<rparr>)"

text \<open>Three pages of 100, 100 and 42 records with the identifiers 0 to 241.\<close>

definition num_record :: "nat \<Rightarrow> airtable_record" where
  "num_record k =
     \<lparr> rec_id = Some (JInt (int k)), rec_createdTime = Some (JStr ''2024-01-01T00:00:00.000Z''),
       rec_fields = Some Map.empty \<rparr>"

definition up_three_pages :: upstream where
  "up_three_pages n pp =
     (if n = 1 then Inr (ok_reply \<lparr> page_records = map num_record [0..<100], page_offset = Some ''page2'' \<rparr>)
      else if n = 2
      then Inr (ok_reply \<lparr> page_records = map num_record [100..<200], page_offset = Some ''page3'' \<rparr>)
      else Inr (ok_reply \<lparr> page_records = map num_record [200..<242], page_offset = None \<rparr>))"

text \<open>The flattened form of \<open>num_record k\<close>.\<close>

definition flat_num :: "nat \<Rightarrow> flat_record" where
  "flat_num k = [''id'' \<mapsto> JInt (int k), ''createdTime'' \<mapsto> JStr ''2024-01-01T00:00:00.000Z'']"

text \<open>
  Upstream records whose \<^verbatim>\<open>fields\<close> carry a field named \<^verbatim>\<open>id\<close>, and an upstream
  that returns two of them with different record identifiers and the same field value.
\<close>

definition ex_field_record :: "string \<Rightarrow> int \<Rightarrow> airtable_record" where
  "ex_field_record i n =
     \<lparr> rec_id = Some (JStr i), rec_createdTime = Some (JStr ''2024-01-01T00:00:00.000Z''),
       rec_fields = Some [''id'' \<mapsto> JInt n, ''Name'' \<mapsto> JStr ''Widget''] \<rparr>"

definition up_field_ids :: upstream where
  "up_field_ids n pp =
     Inr (ok_reply \<lparr> page_records = [ex_field_record ''recA'' 7, ex_field_record ''recB'' 7],
           page_offset = None \<rparr>)"

section \<open>Properties\<close>

subsection \<open>Validation\<close>

lemmas validate_defs = validate_airtable_params_def base_id_errors_def table_id_errors_def
  max_records_errors_def max_records_value_def filter_errors_def dangerous_patterns_def
  lower_def lower_char_def startswith_def fmt_str_def

lemma lower_char_not_upper: "lower_char c \<notin> set ''ABCDEFGHIJKLMNOPQRSTUVWXYZ''"
  unfolding lower_char_def
  by (auto split: option.splits if_splits)

lemma startswith_subset: "startswith s p \<Longrightarrow> set p \<subseteq> set s"
  unfolding startswith_def by (metis set_take_subset)

lemma str_contains_subset: "str_contains p s \<Longrightarrow> set p \<subseteq> set s"
proof (induction s)
  case Nil
  then show ?case by simp
next
  case (Cons c cs)
  from Cons.prems have "startswith (c # cs) p \<or> str_contains p cs" by simp
  then show ?case
  proof
    assume "startswith (c # cs) p"
    then show ?thesis by (rule startswith_subset)
  next
    assume "str_contains p cs"
    then have "set p \<subseteq> set cs" by (rule Cons.IH)
    then show ?thesis by auto
  qed
qed

text \<open>
  The filter is lower-cased before the search, the patterns are not: a pattern with a
  capital letter is never found, whatever the filter.
\<close>

lemma upper_pattern_never_matches:
  "c \<in> set p \<Longrightarrow> c \<in> set ''ABCDEFGHIJKLMNOPQRSTUVWXYZ'' \<Longrightarrow> \<not> str_contains p (lower s)"
proof
  assume c: "c \<in> set p" "c \<in> set ''ABCDEFGHIJKLMNOPQRSTUVWXYZ''" and "str_contains p (lower s)"
  then have "c \<in> set (lower s)" using str_contains_subset by blast
  then obtain d where "c = lower_char d" by (auto simp: lower_def)
  with c(2) lower_char_not_upper[of d] show False by simp
qed

lemma drop_table_never_found: "\<not> str_contains ''DROP TABLE'' (lower s)"
  by (rule upper_pattern_never_matches[of "CHR ''D''"]) simp_all

lemma delete_from_never_found: "\<not> str_contains ''DELETE FROM'' (lower s)"
  by (rule upper_pattern_never_matches[of "CHR ''D''"]) simp_all

text \<open>
  C4. A filter expression that contains a disallowed substring under case-insensitive
  comparison, in particular any letter-case variant of \<^verbatim>\<open>DROP TABLE\<close>, is to be
  rejected by validation. The code accepts the filter \<^verbatim>\<open>DROP TABLE\<close> itself: with
  well-formed identifiers and no record cap, validation returns the parameter set and
  no error.
\<close>

theorem drop_table_filter_accepted:
  "validate_airtable_params cfg (Some ''appAAAAAAAAAAAAAA'') (Some ''tblAAAAAAAAAAAAAA'') None
     (Some ''DROP TABLE'')
   = Inr \<lparr> base_id = Some ''appAAAAAAAAAAAAAA'', table_id = Some ''tblAAAAAAAAAAAAAA'',
           max_records = None, filter_formula = Some ''DROP TABLE'' \<rparr>"
  by (simp add: validate_defs)

subsection \<open>The cache\<close>

text \<open>Every operation of the class keeps the two dicts on the same keys.\<close>

lemma cache_init_dom: "dom (c_cache SimpleCache_init) = dom (c_timestamps SimpleCache_init)"
  by (simp add: SimpleCache_init_def)

lemma cache_set_dom:
  "dom (c_cache c) = dom (c_timestamps c) \<Longrightarrow>
   dom (c_cache (cache_set md5 c now b t d f m)) = dom (c_timestamps (cache_set md5 c now b t d f m))"
  by (simp add: cache_set_def Let_def)

lemma cache_get_dom:
  "dom (c_cache c) = dom (c_timestamps c) \<Longrightarrow>
   dom (c_cache (snd (cache_get md5 c now b t f m ttl)))
     = dom (c_timestamps (snd (cache_get md5 c now b t f m ttl)))"
  by (auto simp: cache_get_def Let_def split: option.splits)

lemma cache_clear_dom: "dom (c_cache (cache_clear c)) = dom (c_timestamps (cache_clear c))"
  by (simp add: cache_clear_def)

text \<open>On such a cache the lookup raises no exception.\<close>

lemma cache_get_no_exception:
  "dom (c_cache c) = dom (c_timestamps c) \<Longrightarrow> fst (cache_get md5 c now b t f m ttl) \<noteq> Inl e"
  by (auto simp: cache_get_def Let_def split: option.splits)

subsection \<open>Double-precision subtraction\<close>

text \<open>Rounding to the nearest integer is monotone and odd, and keeps the integers.\<close>

lemma round_half_even_of_int: "round_half_even (of_int n) = n"
  by (simp add: round_half_even_def)

lemma round_half_even_bounds:
  "\<lfloor>q\<rfloor> \<le> round_half_even q" "round_half_even q \<le> \<lfloor>q\<rfloor> + 1"
  by (simp_all add: round_half_even_def Let_def)

lemma round_half_even_mono:
  assumes "x \<le> y" shows "round_half_even x \<le> round_half_even y"
proof (cases "\<lfloor>x\<rfloor> = \<lfloor>y\<rfloor>")
  case True
  with assms have "x - of_int \<lfloor>x\<rfloor> \<le> y - of_int \<lfloor>y\<rfloor>" by simp
  with True show ?thesis by (auto simp: round_half_even_def Let_def)
next
  case False
  with assms have "\<lfloor>x\<rfloor> < \<lfloor>y\<rfloor>" using floor_mono[OF assms] by linarith
  with round_half_even_bounds(2)[of x] round_half_even_bounds(1)[of y] show ?thesis by linarith
qed

lemma round_half_even_minus: "round_half_even (- q) = - round_half_even q"
proof (cases "q = of_int \<lfloor>q\<rfloor>")
  case True
  then obtain n where "q = of_int n" ..
  then have "- q = of_int (- n)" by simp
  then show ?thesis unfolding \<open>q = of_int n\<close> by (metis round_half_even_of_int)
next
  case False
  then have fl: "\<lfloor>- q\<rfloor> = - \<lfloor>q\<rfloor> - 1"
    by (metis Ints_of_int ceiling_altdef ceiling_def diff_minus_eq_add minus_diff_eq of_int_floor_cancel uminus_add_conv_diff add.inverse_inverse)
  show ?thesis
    by (auto simp: round_half_even_def Let_def fl)
qed


lemma binade_from_range: "e \<le> binade_from k e x" "binade_from k e x \<le> e + int k"
  by (induction k e x rule: binade_from.induct) auto

lemma binade_from_upper:
  "binade_from k e x < e + int k \<Longrightarrow> x < 2 powi (binade_from k e x + 1)"
  by (induction k e x rule: binade_from.induct) (auto split: if_splits)

lemma binade_from_lower:
  "e < binade_from k e x \<Longrightarrow> 2 powi (binade_from k e x) \<le> x"
proof (induction k e x rule: binade_from.induct)
  case (1 e x)
  then show ?case by simp
next
  case (2 k e x)
  show ?case
  proof (cases "x < 2 powi (e + 1)")
    case True
    with 2 show ?thesis by simp
  next
    case False
    show ?thesis
    proof (cases "e + 1 < binade_from k (e + 1) x")
      case True
      with 2 False show ?thesis by simp
    next
      case False': False
      with binade_from_range(1)[where e = "e + 1" and k = k and x = x] have "binade_from k (e + 1) x = e + 1" by simp
      with False show ?thesis by simp
    qed
  qed
qed

lemma binade_from_mono: "x \<le> y \<Longrightarrow> binade_from k e x \<le> binade_from k e y"
proof (induction k arbitrary: e)
  case 0
  then show ?case by simp
next
  case (Suc k)
  from binade_from_range(1)[where e = "e + 1" and k = k and x = y] have "e \<le> binade_from k (e + 1) y" by simp
  with Suc show ?case by auto
qed

lemma binade_from_eq:
  assumes "e0 \<le> e" and "e \<le> e0 + int k"
    and lo: "e0 < e \<Longrightarrow> 2 powi e \<le> x" and hi: "e < e0 + int k \<Longrightarrow> x < 2 powi (e + 1)"
  shows "binade_from k e0 x = e"
proof -
  let ?r = "binade_from k e0 x"
  have r: "e0 \<le> ?r" "?r \<le> e0 + int k" by (rule binade_from_range)+
  have "\<not> ?r < e"
  proof
    assume lt: "?r < e"
    with assms r have "x < 2 powi (?r + 1)" "2 powi e \<le> x"
      using binade_from_upper[where k = k and e = e0 and x = x] by auto
    moreover from lt have "(2::real) powi (?r + 1) \<le> 2 powi e"
      by (intro power_int_increasing) auto
    ultimately show False by simp
  qed
  moreover have "\<not> e < ?r"
  proof
    assume lt: "e < ?r"
    with assms r have "2 powi ?r \<le> x" "x < 2 powi (e + 1)"
      using binade_from_lower[where k = k and e = e0 and x = x] by auto
    moreover from lt have "(2::real) powi (e + 1) \<le> 2 powi ?r"
      by (intro power_int_increasing) auto
    ultimately show False by simp
  qed
  ultimately show ?thesis by simp
qed

lemma exponent_eq:
  assumes "- 1022 \<le> e" and "e \<le> 1023"
    and "- 1022 < e \<Longrightarrow> 2 powi e \<le> \<bar>x\<bar>" and "e < 1023 \<Longrightarrow> \<bar>x\<bar> < 2 powi (e + 1)"
  shows "exponent x = e"
  unfolding exponent_def using assms by (intro binade_from_eq) auto

lemma exponent_range: "- 1022 \<le> exponent x" "exponent x \<le> 1023"
  using binade_from_range[where k = 2045 and e = "- 1022" and x = "\<bar>x\<bar>"] by (simp_all add: exponent_def)

lemma exponent_upper: "exponent x < 1023 \<Longrightarrow> \<bar>x\<bar> < 2 powi (exponent x + 1)"
  using binade_from_upper[where k = 2045 and e = "- 1022" and x = "\<bar>x\<bar>"] by (simp add: exponent_def)

lemma exponent_lower: "- 1022 < exponent x \<Longrightarrow> 2 powi (exponent x) \<le> \<bar>x\<bar>"
  using binade_from_lower[where k = 2045 and e = "- 1022" and x = "\<bar>x\<bar>"] by (simp add: exponent_def)

lemma exponent_mono: "\<bar>x\<bar> \<le> \<bar>y\<bar> \<Longrightarrow> exponent x \<le> exponent y"
  by (simp add: exponent_def binade_from_mono)

lemma exponent_minus: "exponent (- x) = exponent x"
  by (simp add: exponent_def)

lemma round_double_minus: "round_double (- x) = - round_double x"
  by (simp add: round_double_def Let_def exponent_minus round_half_even_minus)

lemma round_double_nonneg: "0 \<le> x \<Longrightarrow> 0 \<le> round_double x"
proof -
  assume "0 \<le> x"
  then have "0 \<le> x / 2 powi (exponent x - 52)" by simp
  from round_half_even_mono[OF this] have "0 \<le> round_half_even (x / 2 powi (exponent x - 52))"
    using round_half_even_of_int[of 0] by simp
  then show ?thesis by (simp add: round_double_def Let_def)
qed

lemma round_double_mono_nonneg:
  assumes "0 \<le> x" and "x \<le> y"
  shows "round_double x \<le> round_double y"
proof -
  let ?ex = "exponent x" and ?ey = "exponent y"
  let ?ux = "(2::real) powi (?ex - 52)" and ?uy = "(2::real) powi (?ey - 52)"
  have ux: "0 < ?ux" and uy: "0 < ?uy" by simp_all
  from assms have le: "?ex \<le> ?ey" by (intro exponent_mono) simp
  show ?thesis
  proof (cases "?ex = ?ey")
    case True
    from assms(2) uy have "x / ?uy \<le> y / ?uy" by (simp add: divide_right_mono)
    from round_half_even_mono[OF this] uy show ?thesis
      by (simp add: round_double_def Let_def True)
  next
    case False
    with le have lt: "?ex < ?ey" by simp
    with exponent_range(2)[of y] have "?ex < 1023" by simp
    from exponent_upper[OF this] assms(1) have "x < 2 powi (?ex + 1)" by simp
    also have split_x: "(2::real) powi (?ex + 1) = 2 powi 53 * ?ux"
      using power_int_add[of "2::real" 53 "?ex - 52"] by (simp add: add.commute)
    finally have "x / ?ux \<le> of_int (2 ^ 53)" using ux by (simp add: pos_divide_le_eq)
    from round_half_even_mono[OF this] have "round_half_even (x / ?ux) \<le> 2 ^ 53"
      by (simp only: round_half_even_of_int)
    then have "real_of_int (round_half_even (x / ?ux)) \<le> 2 ^ 53" by simp
    with ux have "round_double x \<le> 2 ^ 53 * ?ux"
      by (simp add: round_double_def Let_def)
    also have "2 ^ 53 * ?ux = 2 powi (?ex + 1)"
      using split_x by simp
    also from lt have "(2::real) powi (?ex + 1) \<le> 2 powi ?ey"
      by (intro power_int_increasing) auto
    also have "\<dots> \<le> round_double y"
    proof -
      from lt exponent_range(1)[of x] have "- 1022 < ?ey" by simp
      from exponent_lower[OF this] assms have "2 powi ?ey \<le> y" by simp
      moreover have split_y: "(2::real) powi ?ey = 2 powi 52 * ?uy"
        using power_int_add[of "2::real" 52 "?ey - 52"] by (simp add: add.commute)
      ultimately have "of_int (2 ^ 52) \<le> y / ?uy" using uy by (simp add: pos_le_divide_eq)
      from round_half_even_mono[OF this] have "2 ^ 52 \<le> round_half_even (y / ?uy)"
        by (simp only: round_half_even_of_int)
      then have "2 ^ 52 \<le> real_of_int (round_half_even (y / ?uy))" by simp
      with uy have "2 ^ 52 * ?uy \<le> round_double y"
        by (simp add: round_double_def Let_def)
      with split_y show ?thesis by simp
    qed
    finally show ?thesis .
  qed
qed

lemma round_double_mono:
  assumes "x \<le> y" shows "round_double x \<le> round_double y"
proof -
  consider "0 \<le> x" | "y \<le> 0" | "x < 0" "0 < y" by linarith
  then show ?thesis
  proof cases
    case 1
    from 1 assms show ?thesis by (rule round_double_mono_nonneg)
  next
    case 2
    with assms have "0 \<le> - y" "- y \<le> - x" by simp_all
    from round_double_mono_nonneg[OF this] show ?thesis by (simp add: round_double_minus)
  next
    case 3
    from 3(1) have "0 \<le> round_double (- x)" by (intro round_double_nonneg) simp
    then have "round_double x \<le> 0" by (simp add: round_double_minus)
    moreover from 3(2) have "0 \<le> round_double y" by (intro round_double_nonneg) simp
    ultimately show ?thesis by simp
  qed
qed


lemma round_double_eq:
  assumes "- 1022 \<le> e" and "e \<le> 1023"
    and "- 1022 < e \<Longrightarrow> 2 powi e \<le> \<bar>x\<bar>" and "e < 1023 \<Longrightarrow> \<bar>x\<bar> < 2 powi (e + 1)"
  shows "round_double x = of_int (round_half_even (x / 2 powi (e - 52))) * 2 powi (e - 52)"
  using exponent_eq[OF assms] by (simp add: round_double_def Let_def)

lemma round_double_0: "round_double 0 = 0"
  by (simp add: round_double_def round_half_even_def)

lemma round_double_of_int:
  assumes "\<bar>n\<bar> \<le> 2 ^ 53"
  shows "round_double (of_int n) = of_int n"
proof (cases "n = 0")
  case True
  then show ?thesis by (simp add: round_double_0)
next
  case False
  let ?e = "exponent (of_int n)"
  let ?k = "nat (52 - ?e)"
  from False have one: "1 \<le> \<bar>real_of_int n\<bar>" by (simp flip: of_int_abs)
  have lo: "0 \<le> ?e"
  proof (rule ccontr)
    assume "\<not> 0 \<le> ?e"
    then have lt: "?e < 0" by simp
    with exponent_upper[of "of_int n"] have "\<bar>real_of_int n\<bar> < 2 powi (?e + 1)" by simp
    also from lt have "(2::real) powi (?e + 1) \<le> 2 powi 0" by (intro power_int_increasing) auto
    finally show False using one by simp
  qed
  show ?thesis
  proof (cases "?e \<le> 52")
    case True
    with lo have u: "(2::real) powi (?e - 52) = 1 / 2 ^ ?k"
      by (simp add: power_int_def field_simps)
    have "real_of_int n / (2 powi (?e - 52)) = of_int (n * 2 ^ ?k)"
      by (simp add: u)
    then have "round_half_even (real_of_int n / (2 powi (?e - 52))) = n * 2 ^ ?k"
      by (simp only: round_half_even_of_int)
    then show ?thesis by (simp add: round_double_def Let_def u)
  next
    case False
    then have e: "53 \<le> ?e" by simp
    with exponent_lower[of "of_int n"] have "2 powi ?e \<le> \<bar>real_of_int n\<bar>" by simp
    moreover from e have "(2::real) powi 53 \<le> 2 powi ?e" by (intro power_int_increasing) auto
    ultimately have "2 ^ 53 \<le> \<bar>real_of_int n\<bar>" by simp
    with assms have n: "\<bar>real_of_int n\<bar> = 2 ^ 53"
      by (metis abs_of_nonneg antisym of_int_abs of_int_le_iff of_int_numeral of_int_power abs_ge_zero)
    have "exponent (of_int n) = 53"
      by (rule exponent_eq) (simp_all add: n)
    then have u: "(2::real) powi (?e - 52) = 2" by simp
    have "real_of_int n / 2 = of_int (n div 2)"
    proof -
      from n have "\<bar>n\<bar> = 2 ^ 53"
        by (metis of_int_abs of_int_eq_iff of_int_numeral of_int_power)
      then have "even n" by (metis abs_of_nonneg dvd_abs_iff even_numeral even_power zero_less_numeral abs_ge_zero)
      then show ?thesis by (metis real_of_int_div of_int_numeral)
    qed
    then have r: "round_half_even (real_of_int n / 2) = n div 2"
      and h: "real_of_int (n div 2) * 2 = real_of_int n"
      by (simp_all only: round_half_even_of_int)
    have "round_double (of_int n) = of_int (round_half_even (real_of_int n / 2)) * 2"
      by (simp add: round_double_def Let_def u)
    with r h show ?thesis by simp
  qed
qed

lemma round_double_300: "round_double 300 = 300"
  using round_double_of_int[of 300] by simp

lemma round_double_1000: "round_double 1000 = 1000"
  using round_double_of_int[of 1000] by simp


text \<open>
  The doubles 0.1 and 300.1, as Python reads these literals, are
  \<open>3602879701896397 / 2\<^sup>5\<^sup>5\<close> and \<open>2639707515964621 / 2\<^sup>4\<^sup>3\<close>. Their exact difference is
  greater than 300 by \<open>819 / 2\<^sup>5\<^sup>5\<close>, and their double-precision difference is 300.
\<close>

lemma float_sub_example:
  "float_sub (2639707515964621 / 2 ^ 43) (3602879701896397 / 2 ^ 55) = 300"
proof -
  have x: "(2639707515964621 / 2 ^ 43 - 3602879701896397 / 2 ^ 55 :: real)
    = 10808639105689191219 / 2 ^ 55" by simp
  have "round_double (10808639105689191219 / 2 ^ 55)
     = of_int (round_half_even ((10808639105689191219 / 2 ^ 55) / 2 powi (8 - 52))) * 2 powi (8 - 52)"
    by (rule round_double_eq) simp_all
  also have "(10808639105689191219 / 2 ^ 55) / 2 powi (8 - 52) = (10808639105689191219 / 2048 :: real)"
    by (simp add: power_int_def power_one_over)
  also have "round_half_even (10808639105689191219 / 2048) = 5277655813324800"
    by (simp add: round_half_even_def Let_def)
  finally show ?thesis by (simp add: float_sub_def x power_int_def power_one_over)
qed

lemma float_sub_int:
  assumes "\<bar>i - j\<bar> \<le> 2 ^ 53"
  shows "float_sub (of_int i) (of_int j) = of_int (i - j)"
  using round_double_of_int[OF assms] by (simp add: float_sub_def)

lemma float_sub_1000_0: "float_sub 1000 0 = 1000"
  using float_sub_int[of 1000 0] by simp

subsection \<open>The lifetime of a cache entry\<close>

lemma cache_get_after_set:
  "cache_get md5 (cache_set md5 c T b t data f m) now b t f m ttl =
     (if float_sub now T > real_of_int ttl
      then (Inr None, (cache_set md5 c T b t data f m)
               \<lparr> c_cache := (c_cache (cache_set md5 c T b t data f m))
                    (generate_key md5 b t f m := None),
                 c_timestamps := (c_timestamps (cache_set md5 c T b t data f m))
                    (generate_key md5 b t f m := None) \<rparr>)
      else (Inr (Some data), cache_set md5 c T b t data f m))"
  by (simp add: cache_get_def cache_set_def Let_def)

text \<open>
  The computed age exceeds a time-to-live that is a double only if the exact age does,
  and it does so as soon as the exact age reaches a double above the time-to-live.
\<close>

lemma float_sub_le:
  assumes "\<bar>ttl\<bar> \<le> 2 ^ 53" and "now \<le> T + real_of_int ttl"
  shows "float_sub now T \<le> real_of_int ttl"
proof -
  from assms(2) have "now - T \<le> real_of_int ttl" by simp
  from round_double_mono[OF this] round_double_of_int[OF assms(1)] show ?thesis
    by (simp add: float_sub_def)
qed

lemma float_sub_ge:
  assumes "round_double d = d" and "T + d \<le> now"
  shows "d \<le> float_sub now T"
proof -
  from assms(2) have "d \<le> now - T" by simp
  from round_double_mono[OF this] assms(1) show ?thesis by (simp add: float_sub_def)
qed

text \<open>
  C5, as amended. For a cache entry inserted at time \<open>T\<close> and a time-to-live \<open>ttl\<close> of
  magnitude at most \<open>2\<^sup>5\<^sup>3\<close> (the default is 300): a \<^verbatim>\<open>get\<close> of the same parameters at
  any time up to and including \<open>T + ttl\<close> returns the stored payload and leaves the
  cache as it is. A \<^verbatim>\<open>get\<close> returns absent and deletes the entry, from both dicts, as a
  side effect of the lookup, leaving every other key as it was, exactly when the age
  that the code computes, the double-precision difference of the time of the lookup and
  \<open>T\<close>, exceeds \<open>ttl\<close>; otherwise it returns the payload. The computed age exceeds
  \<open>ttl\<close> only at times strictly after \<open>T + ttl\<close>, and it does so at every time from
  \<open>T + d\<close> on, for every double \<open>d\<close> greater than \<open>ttl\<close>.
\<close>

theorem cache_entry_lifetime:
  assumes "\<bar>ttl\<bar> \<le> 2 ^ 53"
  shows
  "(now \<le> T + real_of_int ttl \<longrightarrow>
      cache_get md5 (cache_set md5 c T b t data f m) now b t f m ttl
        = (Inr (Some data), cache_set md5 c T b t data f m)) \<and>
   (real_of_int ttl < float_sub now T \<longrightarrow>
      T + real_of_int ttl < now \<and>
      fst (cache_get md5 (cache_set md5 c T b t data f m) now b t f m ttl) = Inr None \<and>
      c_cache (snd (cache_get md5 (cache_set md5 c T b t data f m) now b t f m ttl))
        = (c_cache (cache_set md5 c T b t data f m)) (generate_key md5 b t f m := None) \<and>
      c_timestamps (snd (cache_get md5 (cache_set md5 c T b t data f m) now b t f m ttl))
        = (c_timestamps (cache_set md5 c T b t data f m)) (generate_key md5 b t f m := None)) \<and>
   (\<not> real_of_int ttl < float_sub now T \<longrightarrow>
      cache_get md5 (cache_set md5 c T b t data f m) now b t f m ttl
        = (Inr (Some data), cache_set md5 c T b t data f m)) \<and>
   (\<forall>d. round_double d = d \<longrightarrow> real_of_int ttl < d \<longrightarrow> T + d \<le> now \<longrightarrow>
      real_of_int ttl < float_sub now T)"
proof (intro conjI impI allI)
  assume "now \<le> T + real_of_int ttl"
  from float_sub_le[OF assms this]
  show "cache_get md5 (cache_set md5 c T b t data f m) now b t f m ttl
        = (Inr (Some data), cache_set md5 c T b t data f m)"
    by (simp add: cache_get_after_set)
next
  assume a: "real_of_int ttl < float_sub now T"
  show "T + real_of_int ttl < now"
  proof (rule ccontr)
    assume "\<not> T + real_of_int ttl < now"
    then have "now \<le> T + real_of_int ttl" by simp
    from float_sub_le[OF assms this] a show False by simp
  qed
  from a show "fst (cache_get md5 (cache_set md5 c T b t data f m) now b t f m ttl) = Inr None"
    by (simp add: cache_get_after_set)
  from a show "c_cache (snd (cache_get md5 (cache_set md5 c T b t data f m) now b t f m ttl))
        = (c_cache (cache_set md5 c T b t data f m)) (generate_key md5 b t f m := None)"
    by (simp add: cache_get_after_set)
  from a show "c_timestamps (snd (cache_get md5 (cache_set md5 c T b t data f m) now b t f m ttl))
        = (c_timestamps (cache_set md5 c T b t data f m)) (generate_key md5 b t f m := None)"
    by (simp add: cache_get_after_set)
next
  assume "\<not> real_of_int ttl < float_sub now T"
  then show "cache_get md5 (cache_set md5 c T b t data f m) now b t f m ttl
        = (Inr (Some data), cache_set md5 c T b t data f m)"
    by (simp add: cache_get_after_set)
next
  fix d assume "round_double d = d" and "real_of_int ttl < d" and "T + d \<le> now"
  from float_sub_ge[OF this(1,3)] this(2) show "real_of_int ttl < float_sub now T" by simp
qed

theorem cache_entry_lifetime_witness:
  "cache_get (\<lambda>s. s) (cache_set (\<lambda>s. s) SimpleCache_init 1000 (Some ''appAAAAAAAAAAAAAA'')
       (Some ''tblAAAAAAAAAAAAAA'') ex_payload None None) 1200
     (Some ''appAAAAAAAAAAAAAA'') (Some ''tblAAAAAAAAAAAAAA'') None None 300
   = (Inr (Some ex_payload), cache_set (\<lambda>s. s) SimpleCache_init 1000 (Some ''appAAAAAAAAAAAAAA'')
       (Some ''tblAAAAAAAAAAAAAA'') ex_payload None None) \<and>
   fst (cache_get (\<lambda>s. s) (cache_set (\<lambda>s. s) SimpleCache_init 1000 (Some ''appAAAAAAAAAAAAAA'')
       (Some ''tblAAAAAAAAAAAAAA'') ex_payload None None) 1301
     (Some ''appAAAAAAAAAAAAAA'') (Some ''tblAAAAAAAAAAAAAA'') None None 300) = Inr None \<and>
   c_cache (snd (cache_get (\<lambda>s. s) (cache_set (\<lambda>s. s) SimpleCache_init 1000
       (Some ''appAAAAAAAAAAAAAA'') (Some ''tblAAAAAAAAAAAAAA'') ex_payload None None) 1301
     (Some ''appAAAAAAAAAAAAAA'') (Some ''tblAAAAAAAAAAAAAA'') None None 300)) = Map.empty"
proof -
  let ?c = "cache_set (\<lambda>s. s) SimpleCache_init 1000 (Some ''appAAAAAAAAAAAAAA'')
       (Some ''tblAAAAAAAAAAAAAA'') ex_payload None None"
  have ttl: "\<bar>300::int\<bar> \<le> 2 ^ 53" by simp
  have fresh: "(1200::real) \<le> 1000 + real_of_int 300" by simp
  have d: "round_double 301 = 301" using round_double_of_int[of 301] by simp
  have stale: "real_of_int 300 < (301::real)" "(1000::real) + 301 \<le> 1301" by simp_all
  note life = cache_entry_lifetime[OF ttl, of _ 1000 "\<lambda>s. s" SimpleCache_init
        "Some ''appAAAAAAAAAAAAAA''" "Some ''tblAAAAAAAAAAAAAA''" ex_payload None None]
  have a: "cache_get (\<lambda>s. s) ?c 1200 (Some ''appAAAAAAAAAAAAAA'') (Some ''tblAAAAAAAAAAAAAA'')
      None None 300 = (Inr (Some ex_payload), ?c)"
    using life[of 1200] fresh by blast
  have age: "real_of_int 300 < float_sub 1301 1000"
    using life[of 1301] d stale by blast
  have b: "fst (cache_get (\<lambda>s. s) ?c 1301 (Some ''appAAAAAAAAAAAAAA'') (Some ''tblAAAAAAAAAAAAAA'')
      None None 300) = Inr None \<and>
    c_cache (snd (cache_get (\<lambda>s. s) ?c 1301 (Some ''appAAAAAAAAAAAAAA'')
      (Some ''tblAAAAAAAAAAAAAA'') None None 300))
      = (c_cache ?c) (generate_key (\<lambda>s. s) (Some ''appAAAAAAAAAAAAAA'')
           (Some ''tblAAAAAAAAAAAAAA'') None None := None)"
    using life[of 1301] age by blast
  have c: "(c_cache ?c) (generate_key (\<lambda>s. s) (Some ''appAAAAAAAAAAAAAA'')
           (Some ''tblAAAAAAAAAAAAAA'') None None := None) = Map.empty"
    by (simp add: cache_set_def SimpleCache_init_def Let_def)
  from a b c show ?thesis by simp
qed

text \<open>
  At exactly \<open>T + ttl\<close> the test \<^verbatim>\<open>time.time() - cache_time > ttl_seconds\<close> is false:
  the entry inserted at 1000 is still returned by a lookup at 1300 with a time-to-live
  of 300. Nor is every lookup after \<open>T + ttl\<close> answered with absent: the entry inserted
  at the clock reading 0.1 is still returned at the clock reading 300.1, which is later
  than \<open>T + ttl\<close>.
\<close>

theorem cache_get_at_expiry_counterexample:
  "fst (cache_get (\<lambda>s. s) (cache_set (\<lambda>s. s) SimpleCache_init 1000 (Some ''appAAAAAAAAAAAAAA'')
       (Some ''tblAAAAAAAAAAAAAA'') ex_payload None None) (1000 + 300)
     (Some ''appAAAAAAAAAAAAAA'') (Some ''tblAAAAAAAAAAAAAA'') None None 300)
   = Inr (Some ex_payload) \<and>
   (3602879701896397 / 2 ^ 55 + real_of_int 300 < 2639707515964621 / 2 ^ 43 \<and>
    fst (cache_get (\<lambda>s. s) (cache_set (\<lambda>s. s) SimpleCache_init (3602879701896397 / 2 ^ 55)
       (Some ''appAAAAAAAAAAAAAA'') (Some ''tblAAAAAAAAAAAAAA'') ex_payload None None)
       (2639707515964621 / 2 ^ 43)
     (Some ''appAAAAAAAAAAAAAA'') (Some ''tblAAAAAAAAAAAAAA'') None None 300)
   = Inr (Some ex_payload))"
proof -
  have "float_sub (1000 + 300) 1000 = 300"
    using float_sub_int[of 1300 1000] by simp
  with float_sub_example show ?thesis by (simp add: cache_get_after_set)
qed

subsection \<open>The pagination loop\<close>

text \<open>
  A page request fails with the exception that \<^verbatim>\<open>requests.get\<close> raises, or with the
  \<^verbatim>\<open>HTTPError\<close> that \<^verbatim>\<open>raise_for_status\<close> raises on a reply with a status from 400 to
  599; a reply with any other status is returned.
\<close>

lemma page_request_exception: "up n pp = Inl e \<Longrightarrow> page_request up n pp = Inl e"
  by (simp add: page_request_def)

lemma page_request_error_status:
  assumes "up n pp = Inr response"
    and "400 \<le> status_code response" and "status_code response < 600"
  shows "\<exists>msg. raise_for_status response = Some (HTTPError (status_code response) msg) \<and>
           page_request up n pp = Inl (HTTPError (status_code response) msg)"
  using assms by (auto simp: page_request_def raise_for_status_def)

lemma page_request_reply:
  assumes "up n pp = Inr response"
    and "\<not> (400 \<le> status_code response \<and> status_code response < 600)"
  shows "page_request up n pp = Inr response"
  using assms by (auto simp: page_request_def raise_for_status_def)

lemma flatten_page_append:
  "flatten_page acc rs = Inr acc' \<Longrightarrow> \<exists>ys. acc' = acc @ ys \<and> length ys = length rs"
proof (induction rs arbitrary: acc)
  case Nil
  then show ?case by simp
next
  case (Cons r rs)
  from Cons.prems obtain fr where fr: "flatten_record r = Inr fr"
    and rest: "flatten_page (acc @ [fr]) rs = Inr acc'"
    by (auto split: sum.splits)
  from Cons.IH[OF rest] obtain ys where "acc' = (acc @ [fr]) @ ys" "length ys = length rs"
    by blast
  then have "acc' = acc @ (fr # ys) \<and> length (fr # ys) = length (r # rs)" by simp
  then show ?case by blast
qed

lemma flatten_page_length:
  "flatten_page acc rs = Inr acc' \<Longrightarrow> length acc' = length acc + length rs"
  using flatten_page_append by fastforce

text \<open>
  One iteration of the \<^verbatim>\<open>while\<close> loop, by cases: the loop is not entered; the cap is
  met and the loop is left before any request; the request fails; the body of the reply
  does not parse; a record of the page lacks a key; the page carries no cursor; the page
  carries a cursor and the loop goes on.
\<close>

lemma loop_stop:
  "\<not> pc < max_pages \<Longrightarrow>
   pagination_loop up tid maxrec filt acc off pc sent = (Finished acc pc, sent)"
  by (subst pagination_loop.simps) simp

lemma loop_step:
  assumes "pc < max_pages"
  obtains
    (cap) m where "maxrec = Some m" "m \<le> int (length acc)"
      "pagination_loop up tid maxrec filt acc off pc sent = (Finished acc (Suc pc), sent)"
  | (fail) e where "\<forall>m. maxrec = Some m \<longrightarrow> int (length acc) < m"
      "page_request up (Suc pc) (build_page_params tid maxrec filt (length acc) off) = Inl e"
      "pagination_loop up tid maxrec filt acc off pc sent =
         (Returned (ErrorBody (''Data service error: '' @ str_request_exception e), 502),
          sent @ [build_page_params tid maxrec filt (length acc) off])"
  | (badjson) response msg where "\<forall>m. maxrec = Some m \<longrightarrow> int (length acc) < m"
      "page_request up (Suc pc) (build_page_params tid maxrec filt (length acc) off) = Inr response"
      "json_body response = Inl msg"
      "pagination_loop up tid maxrec filt acc off pc sent =
         (Raised (JSONDecodeError msg), sent @ [build_page_params tid maxrec filt (length acc) off])"
  | (raise) response data ex where "\<forall>m. maxrec = Some m \<longrightarrow> int (length acc) < m"
      "page_request up (Suc pc) (build_page_params tid maxrec filt (length acc) off) = Inr response"
      "json_body response = Inr data"
      "flatten_page acc (page_records data) = Inl ex"
      "pagination_loop up tid maxrec filt acc off pc sent =
         (Raised ex, sent @ [build_page_params tid maxrec filt (length acc) off])"
  | (last) response data acc' where "\<forall>m. maxrec = Some m \<longrightarrow> int (length acc) < m"
      "page_request up (Suc pc) (build_page_params tid maxrec filt (length acc) off) = Inr response"
      "json_body response = Inr data"
      "flatten_page acc (page_records data) = Inr acc'"
      "\<not> truthy (page_offset data)"
      "pagination_loop up tid maxrec filt acc off pc sent =
         (Finished acc' (Suc pc), sent @ [build_page_params tid maxrec filt (length acc) off])"
  | (more) response data acc' where "\<forall>m. maxrec = Some m \<longrightarrow> int (length acc) < m"
      "page_request up (Suc pc) (build_page_params tid maxrec filt (length acc) off) = Inr response"
      "json_body response = Inr data"
      "flatten_page acc (page_records data) = Inr acc'"
      "truthy (page_offset data)"
      "pagination_loop up tid maxrec filt acc off pc sent =
         pagination_loop up tid maxrec filt acc' (page_offset data) (Suc pc)
           (sent @ [build_page_params tid maxrec filt (length acc) off])"
proof -
  let ?pp = "build_page_params tid maxrec filt (length acc) off"
  show ?thesis
  proof (cases "\<exists>m. maxrec = Some m \<and> m \<le> int (length acc)")
    case True
    then obtain m where m: "maxrec = Some m" "m \<le> int (length acc)" by blast
    with assms have "pagination_loop up tid maxrec filt acc off pc sent = (Finished acc (Suc pc), sent)"
      by (subst pagination_loop.simps) simp
    with m show ?thesis by (rule cap)
  next
    case False
    then have op: "\<forall>m. maxrec = Some m \<longrightarrow> int (length acc) < m" by auto
    then have nc: "\<not> (case maxrec of None \<Rightarrow> False | Some m \<Rightarrow> m - int (length acc) \<le> 0)"
      by (auto split: option.splits)
    show ?thesis
    proof (cases "page_request up (Suc pc) ?pp")
      case (Inl e)
      with assms nc have "pagination_loop up tid maxrec filt acc off pc sent =
         (Returned (ErrorBody (''Data service error: '' @ str_request_exception e), 502), sent @ [?pp])"
        by (subst pagination_loop.simps) (simp add: Let_def)
      with op Inl show ?thesis by (rule fail)
    next
      case (Inr response)
      show ?thesis
      proof (cases "json_body response")
        case bad: (Inl msg)
        with assms nc Inr have "pagination_loop up tid maxrec filt acc off pc sent =
           (Raised (JSONDecodeError msg), sent @ [?pp])"
          by (subst pagination_loop.simps) (simp add: Let_def)
        with op Inr bad show ?thesis by (rule badjson)
      next
        case js: (Inr data)
        show ?thesis
        proof (cases "flatten_page acc (page_records data)")
          case (Inl ex)
          with assms nc Inr js have "pagination_loop up tid maxrec filt acc off pc sent =
             (Raised ex, sent @ [?pp])"
            by (subst pagination_loop.simps) (simp add: Let_def)
          with op Inr js Inl show ?thesis by (rule raise)
        next
          case fl: (Inr acc')
          show ?thesis
          proof (cases "truthy (page_offset data)")
            case True
            with assms nc Inr js fl have "pagination_loop up tid maxrec filt acc off pc sent =
                pagination_loop up tid maxrec filt acc' (page_offset data) (Suc pc) (sent @ [?pp])"
              by (subst pagination_loop.simps) (simp add: Let_def)
            with op Inr js fl True show ?thesis by (rule more)
          next
            case False
            with assms nc Inr js fl have "pagination_loop up tid maxrec filt acc off pc sent =
                (Finished acc' (Suc pc), sent @ [?pp])"
              by (subst pagination_loop.simps) (simp add: Let_def)
            with op Inr js fl False show ?thesis by (rule last)
          qed
        qed
      qed
    qed
  qed
qed

text \<open>Each iteration sends at most one request, and the log only grows.\<close>

lemma loop_log_bound:
  "length (snd (pagination_loop up tid maxrec filt acc off pc sent)) \<le> length sent + (max_pages - pc)"
proof (induction "max_pages - pc" arbitrary: acc off pc sent)
  case 0
  then show ?case by (simp add: loop_stop)
next
  case (Suc n)
  then have lt: "pc < max_pages" and n: "n = max_pages - Suc pc" by simp_all
  from lt show ?case
  proof (cases rule: loop_step[where up=up and tid=tid and maxrec=maxrec and filt=filt and acc=acc and off=off and sent=sent])
    case (more response data acc')
    with Suc.hyps(1)[OF n, where acc=acc' and off="page_offset data" and sent="sent @ [build_page_params tid maxrec filt (length acc) off]"] lt
    show ?thesis by simp
  qed (use lt in simp_all)
qed

lemma loop_log_prefix:
  "prefix sent (snd (pagination_loop up tid maxrec filt acc off pc sent))"
proof (induction "max_pages - pc" arbitrary: acc off pc sent)
  case 0
  then show ?case by (simp add: loop_stop)
next
  case (Suc n)
  then have lt: "pc < max_pages" and n: "n = max_pages - Suc pc" by simp_all
  from lt show ?case
  proof (cases rule: loop_step[where up=up and tid=tid and maxrec=maxrec and filt=filt and acc=acc and off=off and sent=sent])
    case (more response data acc')
    with Suc.hyps(1)[OF n, where acc=acc' and off="page_offset data" and sent="sent @ [build_page_params tid maxrec filt (length acc) off]"]
    show ?thesis by (auto dest: append_prefixD)
  qed simp_all
qed

text \<open>The page count when the loop is left, against the ceiling and against the log.\<close>

lemma loop_page_count_bound:
  "pc \<le> max_pages \<Longrightarrow> pagination_loop up tid maxrec filt acc off pc sent = (Finished acc' n, s)
   \<Longrightarrow> n \<le> max_pages"
proof (induction "max_pages - pc" arbitrary: acc off pc sent)
  case 0
  then show ?case by (simp add: loop_stop)
next
  case (Suc k)
  then have lt: "pc < max_pages" and k: "k = max_pages - Suc pc" by simp_all
  from lt show ?case
  proof (cases rule: loop_step[where up=up and tid=tid and maxrec=maxrec and filt=filt
        and acc=acc and off=off and sent=sent])
    case (more response data acc'')
    with Suc.hyps(1)[OF k, where acc=acc'' and off="page_offset data"
        and sent="sent @ [build_page_params tid maxrec filt (length acc) off]"] lt Suc.prems
    show ?thesis by simp
  qed (use lt Suc.prems in auto)
qed

lemma loop_page_count:
  "length sent = pc \<Longrightarrow> pagination_loop up tid maxrec filt acc off pc sent = (Finished acc' n, s)
   \<Longrightarrow> n = length s \<or> n = Suc (length s)"
proof (induction "max_pages - pc" arbitrary: acc off pc sent)
  case 0
  then show ?case by (simp add: loop_stop)
next
  case (Suc k)
  then have lt: "pc < max_pages" and k: "k = max_pages - Suc pc" by simp_all
  from lt show ?case
  proof (cases rule: loop_step[where up=up and tid=tid and maxrec=maxrec and filt=filt
        and acc=acc and off=off and sent=sent])
    case (more response data acc'')
    with Suc.hyps(1)[OF k, where acc=acc'' and off="page_offset data"
        and sent="sent @ [build_page_params tid maxrec filt (length acc) off]"] lt Suc.prems
    show ?thesis by simp
  qed (use lt Suc.prems in auto)
qed

subsection \<open>The route handler\<close>

lemma validate_Inr:
  "validate_airtable_params cfg b t m f = Inr vp \<Longrightarrow>
   vp = \<lparr> base_id = b, table_id = t, max_records = max_records_value m, filter_formula = f \<rparr>"
  by (auto simp: validate_airtable_params_def Let_def split: if_splits)

lemma handler_invalid:
  "validate_airtable_params cfg (baseId args) (tableId args) (maxRecords args) (filterByFormula args)
     = Inl msg \<Longrightarrow>
   get_airtable_records cfg md5 up t_get t_set cache args
     = ((ErrorBody (''Validation error: '' @ msg), 400), cache, [])"
  by (simp add: get_airtable_records_def)

lemma handler_valid:
  assumes "validate_airtable_params cfg (baseId args) (tableId args) (maxRecords args)
     (filterByFormula args) = Inr vp"
  shows "get_airtable_records cfg md5 up t_get t_set cache args =
     (case request_lookup md5 cache t_get args of
        (Inl e, cache1) \<Rightarrow> ((ErrorBody (str_exception e), 500), cache1, [])
      | (Inr (Some cached_data), cache1) \<Rightarrow> ((DataBody cached_data, 200), cache1, [])
      | (Inr None, cache1) \<Rightarrow>
          (case request_loop up args of
             (Returned resp, sent) \<Rightarrow> (resp, cache1, sent)
           | (Raised e, sent) \<Rightarrow> ((ErrorBody (str_exception e), 500), cache1, sent)
           | (Finished all_records page_count, sent) \<Rightarrow>
               (case dedup_loop {} [] all_records of
                  Inl e \<Rightarrow> ((ErrorBody (str_exception e), 500), cache1, sent)
                | Inr unique_records \<Rightarrow>
                    ((DataBody (build_response all_records unique_records page_count), 200),
                     cache_set md5 cache1 t_set (baseId args) (tableId args)
                       (build_response all_records unique_records page_count)
                       (filterByFormula args) (max_records_value (maxRecords args)),
                     sent))))"
proof -
  from validate_Inr[OF assms] have vp: "base_id vp = baseId args" "table_id vp = tableId args"
    "max_records vp = max_records_value (maxRecords args)" "filter_formula vp = filterByFormula args"
    by simp_all
  show ?thesis
    unfolding get_airtable_records_def assms sum.case vp Let_def ..
qed

lemma handler_sent:
  "snd (snd (get_airtable_records cfg md5 up t_get t_set cache args)) = [] \<or>
   snd (snd (get_airtable_records cfg md5 up t_get t_set cache args)) = snd (request_loop up args)"
proof (cases "validate_airtable_params cfg (baseId args) (tableId args) (maxRecords args) (filterByFormula args)")
  case (Inl msg)
  then show ?thesis by (simp add: handler_invalid)
next
  case (Inr vp)
  show ?thesis
    unfolding handler_valid[OF Inr]
    by (auto split: prod.splits option.splits loop_outcome.splits sum.splits)
qed

lemma always_more_log:
  "length (snd (pagination_loop up_always_more tid None filt acc off pc sent))
     = length sent + (max_pages - pc)"
proof (induction "max_pages - pc" arbitrary: acc off pc sent)
  case 0
  then show ?case by (simp add: loop_stop)
next
  case (Suc n)
  then have lt: "pc < max_pages" and n: "n = max_pages - Suc pc" by simp_all
  from lt show ?case
  proof (cases rule: loop_step[where up=up_always_more and tid=tid and maxrec=None and filt=filt
        and acc=acc and off=off and sent=sent])
    case (more response data acc')
    with Suc.hyps(1)[OF n, where acc=acc' and off="page_offset data"
        and sent="sent @ [build_page_params tid None filt (length acc) off]"] lt
    show ?thesis by simp
  qed (auto simp: up_always_more_def page_request_def raise_for_status_def ok_reply_def)
qed

lemma ex_args_valid_nocap:
  "validate_airtable_params cfg (baseId (ex_args None None)) (tableId (ex_args None None))
     (maxRecords (ex_args None None)) (filterByFormula (ex_args None None))
   = Inr \<lparr> base_id = Some ''appAAAAAAAAAAAAAA'', table_id = Some ''tblAAAAAAAAAAAAAA'',
           max_records = None, filter_formula = None \<rparr>"
  by (simp add: validate_defs ex_args_def)

text \<open>
  C3, as amended. For every upstream behaviour, also one whose every response supplies a
  next-page cursor, the pagination loop performs at most 100 iterations and sends at
  most 100 page requests, and then stops: the ceiling is the constant \<^verbatim>\<open>max_pages = 100\<close>
  of the handler, whatever the configured \<^verbatim>\<open>MAX_PAGINATION_PAGES\<close>, which the loop does
  not read. The loop is a total function (its termination is proved with its
  definition), so aggregation always terminates.
\<close>

theorem page_requests_bounded:
  "length (snd (snd (get_airtable_records cfg md5 up t_get t_set cache args))) \<le> 100 \<and>
   (case fst (request_loop up args) of Finished acc n \<Rightarrow> n \<le> 100 | other \<Rightarrow> True)"
proof -
  have "case fst (request_loop up args) of Finished acc n \<Rightarrow> n \<le> 100 | other \<Rightarrow> True"
  proof (cases "request_loop up args")
    case (Pair out s)
    then show ?thesis
      using loop_page_count_bound[of 0 up "tableId args" "max_records_value (maxRecords args)"
          "filterByFormula args" "[]" None "[]"]
      by (cases out) (auto simp: max_pages_def)
  qed
  moreover
  have "length (snd (request_loop up args)) \<le> 100"
    using loop_log_bound[of up "tableId args" "max_records_value (maxRecords args)"
        "filterByFormula args" "[]" None 0 "[]"]
    by (simp add: max_pages_def)
  with handler_sent[of cfg md5 up t_get t_set cache args]
  have "length (snd (snd (get_airtable_records cfg md5 up t_get t_set cache args))) \<le> 100"
    by auto
  ultimately show ?thesis by simp
qed

text \<open>
  Under the production configuration, whose \<^verbatim>\<open>MAX_PAGINATION_PAGES\<close> is 50, an upstream
  that always supplies a cursor is asked for 100 pages.
\<close>

theorem configured_ceiling_counterexample:
  "length (snd (snd (get_airtable_records ProductionConfig (\<lambda>s. s) up_always_more 0 0
      SimpleCache_init (ex_args None None)))) = 100 \<and>
   MAX_PAGINATION_PAGES ProductionConfig = 50"
proof -
  have "snd (snd (get_airtable_records ProductionConfig (\<lambda>s. s) up_always_more 0 0
      SimpleCache_init (ex_args None None))) = snd (request_loop up_always_more (ex_args None None))"
    unfolding handler_valid[OF ex_args_valid_nocap]
    by (simp add: cache_get_def SimpleCache_init_def Let_def
        split: prod.splits option.splits loop_outcome.splits sum.splits)
  moreover have "max_records_value (maxRecords (ex_args None None)) = None"
    by (simp add: max_records_value_def ex_args_def)
  ultimately show ?thesis
    using always_more_log[of "tableId (ex_args None None)" "filterByFormula (ex_args None None)" "[]" None 0 "[]"]
    by (simp add: max_pages_def ProductionConfig_def Config_def)
qed

subsection \<open>Empty pages\<close>

text \<open>
  C9. If an upstream page response contains zero records but supplies a next-page
  cursor, the loop does not stop there: provided the page-count ceiling has not been
  reached and the requested record cap (if any) has not been met, the log of requests
  goes on with another request, which carries that cursor. Here \<open>pc\<close> pages have been
  requested before, and page \<open>pc + 1\<close> is the empty one.
\<close>

theorem empty_page_with_cursor_continues:
  assumes "pc < max_pages"
    and "\<forall>m. maxrec = Some m \<longrightarrow> int (length acc) < m"
    and "page_request up (Suc pc) (build_page_params tid maxrec filt (length acc) off)
           = Inr response"
    and "json_body response = Inr data"
    and "page_records data = []"
    and "truthy (page_offset data)"
    and "Suc pc < max_pages"
  shows "prefix (sent @ [build_page_params tid maxrec filt (length acc) off,
                         build_page_params tid maxrec filt (length acc) (page_offset data)])
           (snd (pagination_loop up tid maxrec filt acc off pc sent)) \<and>
         pp_offset (build_page_params tid maxrec filt (length acc) (page_offset data))
           = page_offset data"
proof -
  let ?pp = "build_page_params tid maxrec filt (length acc) off"
  let ?pp' = "build_page_params tid maxrec filt (length acc) (page_offset data)"
  have first: "pagination_loop up tid maxrec filt acc off pc sent =
      pagination_loop up tid maxrec filt acc (page_offset data) (Suc pc) (sent @ [?pp])"
    using assms(1)
    by (cases rule: loop_step[where up=up and tid=tid and maxrec=maxrec and filt=filt
          and acc=acc and off=off and sent=sent])
       (use assms in auto)
  have "prefix ((sent @ [?pp]) @ [?pp'])
      (snd (pagination_loop up tid maxrec filt acc (page_offset data) (Suc pc) (sent @ [?pp])))"
    using assms(7)
  proof (cases rule: loop_step[where up=up and tid=tid and maxrec=maxrec and filt=filt
          and acc=acc and off="page_offset data" and sent="sent @ [?pp]"])
    case (cap m)
    with assms(2) show ?thesis by auto
  next
    case (more response' data' acc')
    then show ?thesis using loop_log_prefix[of "(sent @ [?pp]) @ [?pp']" up tid maxrec filt acc'
        "page_offset data'" "Suc (Suc pc)"] by simp
  qed simp_all
  with first have "prefix (sent @ [?pp, ?pp']) (snd (pagination_loop up tid maxrec filt acc off pc sent))"
    by simp
  moreover have "pp_offset ?pp' = page_offset data"
    using assms(6) by (simp add: build_page_params_def)
  ultimately show ?thesis by simp
qed

theorem empty_page_with_cursor_continues_witness:
  "prefix [build_page_params None None None 0 None, build_page_params None None None 0 (Some ''next'')]
     (snd (pagination_loop up_always_more None None None [] None 0 [])) \<and>
   pp_offset (build_page_params None None None 0 (Some ''next'')) = Some ''next''"
proof -
  have h1: "(0::nat) < max_pages" and h6: "Suc 0 < max_pages" by (simp_all add: max_pages_def)
  have h2: "\<forall>m. (None::int option) = Some m \<longrightarrow> int (length ([]::flat_record list)) < m" by simp
  have h3: "page_request up_always_more (Suc 0)
        (build_page_params None None None (length ([]::flat_record list)) None)
      = Inr (ok_reply \<lparr> page_records = [], page_offset = Some ''next'' \<rparr>)"
    by (simp add: page_request_def raise_for_status_def up_always_more_def ok_reply_def)
  have h3': "json_body (ok_reply \<lparr> page_records = [], page_offset = Some ''next'' \<rparr>)
      = Inr \<lparr> page_records = [], page_offset = Some ''next'' \<rparr>"
    by (simp add: ok_reply_def)
  have h4: "page_records \<lparr> page_records = [], page_offset = Some ''next'' \<rparr> = []" by simp
  have h5: "truthy (page_offset \<lparr> page_records = [], page_offset = Some ''next'' \<rparr>)" by simp
  from empty_page_with_cursor_continues[where pc=0 and maxrec=None and acc="[]"
      and up=up_always_more and tid=None and filt=None and off=None
      and response="ok_reply \<lparr> page_records = [], page_offset = Some ''next'' \<rparr>"
      and data="\<lparr> page_records = [], page_offset = Some ''next'' \<rparr>" and sent="[]",
      OF h1 h2 h3 h3' h4 h5 h6]
  show ?thesis by simp
qed

subsection \<open>Upstream failures\<close>

text \<open>
  The \<open>n\<close>-th entry of the log is the request of page \<open>n + 1\<close>. If the upstream fails
  on a request of the log, the loop ends there with the 502 response.
\<close>

lemma loop_failure:
  assumes "length sent = pc"
    and "pagination_loop up tid maxrec filt acc off pc sent = (out, sent')"
    and "length sent \<le> n" and "n < length sent'"
    and "page_request up (Suc n) (sent' ! n) = Inl e"
  shows "out = Returned (ErrorBody (''Data service error: '' @ str_request_exception e), 502)"
  using assms
proof (induction "max_pages - pc" arbitrary: acc off pc sent)
  case 0
  then show ?case by (simp add: loop_stop)
next
  case (Suc k)
  then have lt: "pc < max_pages" and k: "k = max_pages - Suc pc" by simp_all
  let ?pp = "build_page_params tid maxrec filt (length acc) off"
  from lt show ?case
  proof (cases rule: loop_step[where up=up and tid=tid and maxrec=maxrec and filt=filt
        and acc=acc and off=off and sent=sent])
    case (cap m)
    with Suc.prems show ?thesis by simp
  next
    case (fail e')
    with Suc.prems have "sent' = sent @ [?pp]" "n = length sent" by auto
    with fail Suc.prems show ?thesis by auto
  next
    case (badjson response msg)
    with Suc.prems have "sent' = sent @ [?pp]" "n = length sent" by auto
    with badjson Suc.prems show ?thesis by auto
  next
    case (raise response data ex)
    with Suc.prems have "sent' = sent @ [?pp]" "n = length sent" by auto
    with raise Suc.prems show ?thesis by auto
  next
    case (last response data acc')
    with Suc.prems have "sent' = sent @ [?pp]" "n = length sent" by auto
    with last Suc.prems show ?thesis by auto
  next
    case (more response data acc')
    with Suc.prems have rec: "pagination_loop up tid maxrec filt acc' (page_offset data) (Suc pc)
        (sent @ [?pp]) = (out, sent')" by simp
    have pre: "prefix (sent @ [?pp]) sent'"
      using loop_log_prefix[of "sent @ [?pp]" up tid maxrec filt acc' "page_offset data" "Suc pc"] rec
      by simp
    show ?thesis
    proof (cases "n = length sent")
      case True
      from pre obtain zs where "sent' = (sent @ [?pp]) @ zs" by (auto simp: prefix_def)
      with True have "sent' ! n = ?pp" by (simp add: nth_append)
      with True Suc.prems more show ?thesis by simp
    next
      case False
      with Suc.prems have "length (sent @ [?pp]) \<le> n" by simp
      moreover have "length (sent @ [?pp]) = Suc pc" using Suc.prems by simp
      ultimately show ?thesis
        using Suc.hyps(1)[OF k, where acc=acc' and off="page_offset data" and sent="sent @ [?pp]"]
          rec Suc.prems by blast
    qed
  qed
qed

text \<open>The definitions that run the handler on a concrete request.\<close>

lemmas handler_eval = get_airtable_records_def validate_defs ex_args_def cache_get_def cache_set_def
  generate_key_def SimpleCache_init_def Let_def pagination_loop.simps max_pages_def
  build_page_params_def get_table_config_def FRESH_TABLES_def LEGACY_TABLES_def
  flatten_record_def ex_record_def record_get_def build_response_def fmt_int_def
  py_int_def strip_def is_space_def digit_val_def
  page_request_def raise_for_status_def ok_reply_def float_sub_1000_0

lemma cache_get_miss:
  "cache_get md5 c now b t f m ttl = (Inr None, c1) \<Longrightarrow>
   c_cache c1 = (c_cache c)(generate_key md5 b t f m := None) \<and>
   (c_cache c (generate_key md5 b t f m) = None \<longrightarrow> c1 = c)"
  by (auto simp: cache_get_def Let_def split: option.splits if_splits)

lemma handler_failure:
  assumes run: "get_airtable_records cfg md5 up t_get t_set cache args = (resp, cache', sent)"
    and n: "n < length sent"
    and fail: "page_request up (Suc n) (sent ! n) = Inl e"
  shows "resp = (ErrorBody (''Data service error: '' @ str_request_exception e), 502) \<and>
         cache' = snd (request_lookup md5 cache t_get args) \<and>
         fst (request_lookup md5 cache t_get args) = Inr None"
proof (cases "validate_airtable_params cfg (baseId args) (tableId args) (maxRecords args) (filterByFormula args)")
  case (Inl msg)
  with run n show ?thesis by (simp add: handler_invalid)
next
  case (Inr vp)
  obtain cached cache1 where lk: "request_lookup md5 cache t_get args = (cached, cache1)"
    by (cases "request_lookup md5 cache t_get args")
  obtain out s where lp: "request_loop up args = (out, s)"
    by (cases "request_loop up args")
  consider (raised) ex where "cached = Inl ex" | (hit) d where "cached = Inr (Some d)"
    | (miss) "cached = Inr None"
    by (cases cached) auto
  then show ?thesis
  proof cases
    case raised
    with run n lk show ?thesis unfolding handler_valid[OF Inr] by simp
  next
    case hit
    with run n lk show ?thesis unfolding handler_valid[OF Inr] by simp
  next
    case miss
    with run lk lp have s: "sent = s"
      unfolding handler_valid[OF Inr]
      by (auto split: loop_outcome.splits sum.splits)
    from loop_failure[OF _ lp[unfolded s[symmetric]] _ n fail]
    have out: "out = Returned (ErrorBody (''Data service error: '' @ str_request_exception e), 502)"
      by simp
    with run lk lp miss show ?thesis unfolding handler_valid[OF Inr] by simp
  qed
qed

text \<open>
  C6, as amended. If any upstream page request during aggregation fails (transport
  failure, timeout, or an error status on which \<^verbatim>\<open>raise_for_status\<close> raises), the
  records endpoint returns the 502 error response, which contains no records: the
  records of earlier pages are discarded. No cache entry is stored for the request: the
  cache is left as the initial lookup left it, that is unchanged but for an expired
  entry under the request's key, which that lookup has purged.
\<close>

theorem upstream_failure_aborts:
  assumes "get_airtable_records cfg md5 up t_get t_set cache args = (resp, cache', sent)"
    and "n < length sent"
    and "page_request up (Suc n) (sent ! n) = Inl e"
  shows "resp = (ErrorBody (''Data service error: '' @ str_request_exception e), 502) \<and>
         body_records resp = [] \<and>
         cache' = snd (request_lookup md5 cache t_get args) \<and>
         c_cache cache' = (c_cache cache)
           (generate_key md5 (baseId args) (tableId args) (filterByFormula args)
              (max_records_value (maxRecords args)) := None) \<and>
         (c_cache cache (generate_key md5 (baseId args) (tableId args) (filterByFormula args)
              (max_records_value (maxRecords args))) = None \<longrightarrow> cache' = cache)"
proof -
  from handler_failure[OF assms]
  have r: "resp = (ErrorBody (''Data service error: '' @ str_request_exception e), 502)"
    and c: "cache' = snd (request_lookup md5 cache t_get args)"
    and m: "fst (request_lookup md5 cache t_get args) = Inr None"
    by simp_all
  from m c have "request_lookup md5 cache t_get args = (Inr None, cache')"
    by (cases "request_lookup md5 cache t_get args") simp
  from cache_get_miss[OF this] r c show ?thesis by (simp add: body_records_def)
qed

theorem upstream_failure_aborts_witness:
  "get_airtable_records ProductionConfig (\<lambda>s. s) up_timeout_page2 0 0 SimpleCache_init (ex_args None None)
     = ((ErrorBody ''Data service error: Read timed out.'', 502), SimpleCache_init,
        [build_page_params (Some ''tblAAAAAAAAAAAAAA'') None None 0 None,
         build_page_params (Some ''tblAAAAAAAAAAAAAA'') None None 2 (Some ''next'')]) \<and>
   body_records (ErrorBody ''Data service error: Read timed out.'', 502) = []"
proof -
  obtain resp cache' sent where run:
    "get_airtable_records ProductionConfig (\<lambda>s. s) up_timeout_page2 0 0 SimpleCache_init
       (ex_args None None) = (resp, cache', sent)"
    by (cases "get_airtable_records ProductionConfig (\<lambda>s. s) up_timeout_page2 0 0
       SimpleCache_init (ex_args None None)") auto
  then have sent: "sent = [build_page_params (Some ''tblAAAAAAAAAAAAAA'') None None 0 None,
         build_page_params (Some ''tblAAAAAAAAAAAAAA'') None None 2 (Some ''next'')]"
    by (simp add: handler_eval up_timeout_page2_def)
  have n: "1 < length sent" by (simp add: sent)
  have f: "page_request up_timeout_page2 (Suc 1) (sent ! 1) = Inl (Timeout ''Read timed out.'')"
    by (simp add: up_timeout_page2_def page_request_def)
  from upstream_failure_aborts[OF run n f]
  have "resp = (ErrorBody ''Data service error: Read timed out.'', 502) \<and>
    body_records resp = [] \<and>
    cache' = snd (request_lookup (\<lambda>s. s) SimpleCache_init 0 (ex_args None None))"
    by (simp add: body_records_def)
  moreover have "snd (request_lookup (\<lambda>s. s) SimpleCache_init 0 (ex_args None None)) = SimpleCache_init"
    by (simp add: cache_get_def SimpleCache_init_def Let_def)
  ultimately show ?thesis using run sent by (simp add: body_records_def)
qed

text \<open>
  The cache is not always unchanged on error: an entry stored at time 0 under the
  request's key has expired at time 1000, the lookup of the failing request deletes it,
  and the cache after the request differs from the cache before.
\<close>

theorem failure_purges_expired_entry_counterexample:
  "snd (fst (get_airtable_records ProductionConfig (\<lambda>s. s) up_unreachable 1000 1000 ex_stale_cache
       (ex_args None None))) = 502 \<and>
   c_cache ex_stale_cache ''appAAAAAAAAAAAAAA:tblAAAAAAAAAAAAAA::None'' = Some ex_payload \<and>
   c_cache (fst (snd (get_airtable_records ProductionConfig (\<lambda>s. s) up_unreachable 1000 1000
       ex_stale_cache (ex_args None None)))) ''appAAAAAAAAAAAAAA:tblAAAAAAAAAAAAAA::None'' = None \<and>
   fst (snd (get_airtable_records ProductionConfig (\<lambda>s. s) up_unreachable 1000 1000 ex_stale_cache
       (ex_args None None))) \<noteq> ex_stale_cache"
proof -
  have a: "snd (fst (get_airtable_records ProductionConfig (\<lambda>s. s) up_unreachable 1000 1000 ex_stale_cache
       (ex_args None None))) = 502"
    by (simp add: handler_eval up_unreachable_def ex_stale_cache_def)
  have b: "c_cache ex_stale_cache ''appAAAAAAAAAAAAAA:tblAAAAAAAAAAAAAA::None'' = Some ex_payload"
    by (simp add: handler_eval ex_stale_cache_def)
  have c: "c_cache (fst (snd (get_airtable_records ProductionConfig (\<lambda>s. s) up_unreachable 1000 1000
       ex_stale_cache (ex_args None None)))) ''appAAAAAAAAAAAAAA:tblAAAAAAAAAAAAAA::None'' = None"
    by (simp add: handler_eval up_unreachable_def ex_stale_cache_def)
  from b c have "fst (snd (get_airtable_records ProductionConfig (\<lambda>s. s) up_unreachable 1000 1000
       ex_stale_cache (ex_args None None))) \<noteq> ex_stale_cache"
    by auto
  with a b c show ?thesis by simp
qed

text \<open>
  The status of a reply is examined by \<^verbatim>\<open>raise_for_status\<close> only: two upstreams whose
  page requests raise the same exceptions and return replies with the same bodies give
  the same run of the loop and of the handler. So a reply with a status outside 400 to
  599 is handled as the reply with status 200 and the same body is.
\<close>

lemma page_request_same_body:
  assumes "map_sum (\<lambda>e. e) json_body (page_request up k pp)
         = map_sum (\<lambda>e. e) json_body (page_request up' k pp)"
  shows "(page_request up k pp = Inl e \<longrightarrow> page_request up' k pp = Inl e) \<and>
         (page_request up k pp = Inr r \<longrightarrow>
            (\<exists>r'. page_request up' k pp = Inr r' \<and> json_body r' = json_body r))"
  using assms by (cases "page_request up k pp"; cases "page_request up' k pp") auto

lemma loop_same_body:
  assumes eq: "\<forall>k pp. map_sum (\<lambda>e. e) json_body (page_request up k pp)
                     = map_sum (\<lambda>e. e) json_body (page_request up' k pp)"
  shows "pagination_loop up tid maxrec filt acc off pc sent
       = pagination_loop up' tid maxrec filt acc off pc sent"
proof (induction "max_pages - pc" arbitrary: acc off pc sent)
  case 0
  then show ?case by (simp add: loop_stop)
next
  case (Suc k)
  then have lt: "pc < max_pages" and k: "k = max_pages - Suc pc" by simp_all
  let ?pp = "build_page_params tid maxrec filt (length acc) off"
  from eq have e: "map_sum (\<lambda>e. e) json_body (page_request up (Suc pc) ?pp)
                 = map_sum (\<lambda>e. e) json_body (page_request up' (Suc pc) ?pp)" by blast
  note same = page_request_same_body[OF e]
  from lt show ?case
  proof (cases rule: loop_step[where up=up and tid=tid and maxrec=maxrec and filt=filt
        and acc=acc and off=off and sent=sent])
    case (cap m)
    with lt show ?thesis by (subst (2) pagination_loop.simps) simp
  next
    case (fail e)
    then have nc: "\<not> (case maxrec of None \<Rightarrow> False | Some m \<Rightarrow> m - int (length acc) \<le> 0)"
      by (auto split: option.splits)
    from same fail(2) have "page_request up' (Suc pc) ?pp = Inl e" by blast
    with lt nc fail(3) show ?thesis by (subst (2) pagination_loop.simps) (simp add: Let_def)
  next
    case (badjson response msg)
    then have nc: "\<not> (case maxrec of None \<Rightarrow> False | Some m \<Rightarrow> m - int (length acc) \<le> 0)"
      by (auto split: option.splits)
    from same badjson(2) obtain r' where "page_request up' (Suc pc) ?pp = Inr r'"
      "json_body r' = json_body response" by blast
    with lt nc badjson(3,4) show ?thesis by (subst (2) pagination_loop.simps) (simp add: Let_def)
  next
    case (raise response data ex)
    then have nc: "\<not> (case maxrec of None \<Rightarrow> False | Some m \<Rightarrow> m - int (length acc) \<le> 0)"
      by (auto split: option.splits)
    from same raise(2) obtain r' where "page_request up' (Suc pc) ?pp = Inr r'"
      "json_body r' = json_body response" by blast
    with lt nc raise(3,4,5) show ?thesis by (subst (2) pagination_loop.simps) (simp add: Let_def)
  next
    case (last response data acc')
    then have nc: "\<not> (case maxrec of None \<Rightarrow> False | Some m \<Rightarrow> m - int (length acc) \<le> 0)"
      by (auto split: option.splits)
    from same last(2) obtain r' where "page_request up' (Suc pc) ?pp = Inr r'"
      "json_body r' = json_body response" by blast
    with lt nc last(3,4,5,6) show ?thesis by (subst (2) pagination_loop.simps) (simp add: Let_def)
  next
    case (more response data acc')
    then have nc: "\<not> (case maxrec of None \<Rightarrow> False | Some m \<Rightarrow> m - int (length acc) \<le> 0)"
      by (auto split: option.splits)
    from same more(2) obtain r' where "page_request up' (Suc pc) ?pp = Inr r'"
      "json_body r' = json_body response" by blast
    with lt nc more(3,4,5) have "pagination_loop up' tid maxrec filt acc off pc sent
      = pagination_loop up' tid maxrec filt acc' (page_offset data) (Suc pc) (sent @ [?pp])"
      by (subst pagination_loop.simps) (simp add: Let_def)
    with more(6) Suc.hyps(1)[OF k, where acc=acc' and off="page_offset data" and sent="sent @ [?pp]"]
    show ?thesis by simp
  qed
qed

lemma handler_same_body:
  assumes "\<forall>k pp. map_sum (\<lambda>e. e) json_body (page_request up k pp)
                     = map_sum (\<lambda>e. e) json_body (page_request up' k pp)"
  shows "get_airtable_records cfg md5 up t_get t_set cache args
       = get_airtable_records cfg md5 up' t_get t_set cache args"
  unfolding get_airtable_records_def loop_same_body[OF assms] by (rule refl)

lemma status_not_examined:
  assumes "up n pp = Inr response"
    and "\<not> (400 \<le> status_code response \<and> status_code response < 600)"
  shows "get_airtable_records cfg md5
           (\<lambda>k q. if k = n \<and> q = pp then Inr (response \<lparr> status_code := 200 \<rparr>) else up k q)
           t_get t_set cache args
       = get_airtable_records cfg md5 up t_get t_set cache args"
proof (rule handler_same_body, intro allI)
  fix k q
  show "map_sum (\<lambda>e. e) json_body
          (page_request (\<lambda>k q. if k = n \<and> q = pp then Inr (response \<lparr> status_code := 200 \<rparr>) else up k q) k q)
      = map_sum (\<lambda>e. e) json_body (page_request up k q)"
    using assms by (auto simp: page_request_def raise_for_status_def)
qed

text \<open>
  C8, as amended. For every upstream page request made by the records endpoint: a
  timeout yields HTTP 502, an unreachable upstream yields HTTP 502, and an upstream
  reply with a non-2xx status does not have its status passed through. With a status
  from 400 to 599, on which \<^verbatim>\<open>raise_for_status\<close> raises, it yields HTTP 502 with the
  message \<^verbatim>\<open>Data service error:\<close> followed by the text of the exception. With any
  other status the status is not examined: the endpoint answers, caches and requests
  as it does when the reply has status 200 and the same body.
\<close>

theorem upstream_failures_are_502:
  assumes "get_airtable_records cfg md5 up t_get t_set cache args = (resp, cache', sent)"
    and "n < length sent"
  shows "(\<forall>msg. up (Suc n) (sent ! n) = Inl (Timeout msg) \<longrightarrow>
            resp = (ErrorBody (''Data service error: '' @ msg), 502)) \<and>
         (\<forall>msg. up (Suc n) (sent ! n) = Inl (ConnectionError msg) \<longrightarrow>
            resp = (ErrorBody (''Data service error: '' @ msg), 502)) \<and>
         (\<forall>response. up (Suc n) (sent ! n) = Inr response \<longrightarrow>
            400 \<le> status_code response \<longrightarrow> status_code response < 600 \<longrightarrow>
            (\<exists>msg. raise_for_status response = Some (HTTPError (status_code response) msg) \<and>
                   resp = (ErrorBody (''Data service error: '' @ msg), 502))) \<and>
         (\<forall>response. up (Suc n) (sent ! n) = Inr response \<longrightarrow>
            \<not> (400 \<le> status_code response \<and> status_code response < 600) \<longrightarrow>
            get_airtable_records cfg md5
              (\<lambda>k q. if k = Suc n \<and> q = sent ! n then Inr (response \<lparr> status_code := 200 \<rparr>)
                     else up k q)
              t_get t_set cache args = (resp, cache', sent))"
proof (intro conjI allI impI)
  fix msg assume "up (Suc n) (sent ! n) = Inl (Timeout msg)"
  then have "page_request up (Suc n) (sent ! n) = Inl (Timeout msg)"
    by (rule page_request_exception)
  from handler_failure[OF assms this]
  show "resp = (ErrorBody (''Data service error: '' @ msg), 502)" by simp
next
  fix msg assume "up (Suc n) (sent ! n) = Inl (ConnectionError msg)"
  then have "page_request up (Suc n) (sent ! n) = Inl (ConnectionError msg)"
    by (rule page_request_exception)
  from handler_failure[OF assms this]
  show "resp = (ErrorBody (''Data service error: '' @ msg), 502)" by simp
next
  fix response
  assume u: "up (Suc n) (sent ! n) = Inr response"
    and lo: "400 \<le> status_code response" and hi: "status_code response < 600"
  from page_request_error_status[where up = up and n = "Suc n" and pp = "sent ! n", OF u lo hi]
  obtain msg
    where r: "raise_for_status response = Some (HTTPError (status_code response) msg)"
      and p: "page_request up (Suc n) (sent ! n) = Inl (HTTPError (status_code response) msg)"
    by blast
  from handler_failure[OF assms p]
  have "resp = (ErrorBody (''Data service error: '' @ msg), 502)" by simp
  with r show "\<exists>msg. raise_for_status response = Some (HTTPError (status_code response) msg) \<and>
                   resp = (ErrorBody (''Data service error: '' @ msg), 502)" by blast
next
  fix response
  assume u: "up (Suc n) (sent ! n) = Inr response"
    and s: "\<not> (400 \<le> status_code response \<and> status_code response < 600)"
  from status_not_examined[where up = up and n = "Suc n" and pp = "sent ! n", OF u s] assms(1)
  show "get_airtable_records cfg md5
          (\<lambda>k q. if k = Suc n \<and> q = sent ! n then Inr (response \<lparr> status_code := 200 \<rparr>)
                 else up k q)
          t_get t_set cache args = (resp, cache', sent)" by simp
qed

theorem upstream_failures_are_502_witness:
  "fst (get_airtable_records ProductionConfig (\<lambda>s. s) up_not_found 0 0 SimpleCache_init
      (ex_args None None))
   = (ErrorBody (''Data service error: 404 Client Error: Not Found for url: ''
        @ ''https://api.airtable.com/v0/appAAAAAAAAAAAAAA/tblAAAAAAAAAAAAAA''), 502)"
proof -
  let ?reply = "\<lparr> status_code = 404, reason = ''Not Found'',
           url = ''https://api.airtable.com/v0/appAAAAAAAAAAAAAA/tblAAAAAAAAAAAAAA'',
           json_body = Inl ''Expecting value: line 1 column 1 (char 0)'' \<rparr>"
  obtain resp cache' sent where run:
    "get_airtable_records ProductionConfig (\<lambda>s. s) up_not_found 0 0 SimpleCache_init
       (ex_args None None) = (resp, cache', sent)"
    by (cases "get_airtable_records ProductionConfig (\<lambda>s. s) up_not_found 0 0
       SimpleCache_init (ex_args None None)") auto
  then have sent: "sent = [build_page_params (Some ''tblAAAAAAAAAAAAAA'') None None 0 None]"
    by (simp add: handler_eval up_not_found_def)
  have n: "0 < length sent" by (simp add: sent)
  have f: "up_not_found (Suc 0) (sent ! 0) = Inr ?reply"
    by (simp add: up_not_found_def)
  have lo: "400 \<le> status_code ?reply" and hi: "status_code ?reply < 600" by simp_all
  from upstream_failures_are_502[OF run n, THEN conjunct2, THEN conjunct2, THEN conjunct1] f lo hi
  obtain msg where r: "raise_for_status ?reply = Some (HTTPError (status_code ?reply) msg)"
    and resp: "resp = (ErrorBody (''Data service error: '' @ msg), 502)"
    by blast
  have "raise_for_status ?reply = Some (HTTPError 404
      (''404 Client Error: Not Found for url: ''
        @ ''https://api.airtable.com/v0/appAAAAAAAAAAAAAA/tblAAAAAAAAAAAAAA''))"
    by (simp add: raise_for_status_def str_int_def digits_of.simps digit_char_def)
  with r have "msg = ''404 Client Error: Not Found for url: ''
        @ ''https://api.airtable.com/v0/appAAAAAAAAAAAAAA/tblAAAAAAAAAAAAAA''"
    by simp
  with resp run show ?thesis by simp
qed

text \<open>
  An unreachable upstream yields 502, not 503. An upstream reply with status 404 yields
  502, not 404. An upstream reply with status 304, on which \<^verbatim>\<open>raise_for_status\<close> does
  not raise, is not answered with its status either: its empty body does not parse and
  the endpoint answers 500.
\<close>

theorem records_endpoint_status_counterexample:
  "snd (fst (get_airtable_records ProductionConfig (\<lambda>s. s) up_unreachable 0 0 SimpleCache_init
      (ex_args None None))) = 502 \<and>
   snd (fst (get_airtable_records ProductionConfig (\<lambda>s. s) up_not_found 0 0 SimpleCache_init
      (ex_args None None))) = 502 \<and>
   fst (get_airtable_records ProductionConfig (\<lambda>s. s) up_not_modified 0 0 SimpleCache_init
      (ex_args None None)) = (ErrorBody ''Expecting value: line 1 column 1 (char 0)'', 500)"
  by (simp add: handler_eval up_unreachable_def up_not_found_def up_not_modified_def)

subsection \<open>The record cap\<close>

lemma dedup_loop_length:
  "dedup_loop seen uniq xs = Inr out \<Longrightarrow> length out \<le> length uniq + length xs"
proof (induction xs arbitrary: seen uniq)
  case Nil
  then show ?case by simp
next
  case (Cons r rs)
  from Cons.prems obtain k where k: "hash_key (record_get r ''id'') = Inr k"
    by (auto split: sum.splits)
  show ?case
  proof (cases "k \<in> seen")
    case True
    with Cons.prems k have "dedup_loop seen uniq rs = Inr out" by simp
    from Cons.IH[OF this] show ?thesis by simp
  next
    case False
    with Cons.prems k have "dedup_loop (insert k seen) (uniq @ [r]) rs = Inr out" by simp
    from Cons.IH[OF this] show ?thesis by simp
  qed
qed

lemma build_response_length:
  "dedup_loop {} [] acc = Inr uniq \<Longrightarrow> length (records (build_response acc uniq n)) \<le> length acc"
  using dedup_loop_length[of "{}" "[]" acc uniq] by (simp add: build_response_def Let_def)

lemma loop_returned:
  "pagination_loop up tid maxrec filt acc off pc sent = (Returned resp, s) \<Longrightarrow>
   \<exists>msg. resp = (ErrorBody msg, 502)"
proof (induction "max_pages - pc" arbitrary: acc off pc sent)
  case 0
  then show ?case by (simp add: loop_stop)
next
  case (Suc k)
  then have lt: "pc < max_pages" and k: "k = max_pages - Suc pc" by simp_all
  from lt show ?case
  proof (cases rule: loop_step[where up=up and tid=tid and maxrec=maxrec and filt=filt
        and acc=acc and off=off and sent=sent])
    case (more response data acc')
    with Suc.hyps(1)[OF k, where acc=acc' and off="page_offset data"
        and sent="sent @ [build_page_params tid maxrec filt (length acc) off]"] Suc.prems
    show ?thesis by simp
  qed (use Suc.prems in auto)
qed

lemma loop_cap_bound:
  assumes wb: "\<forall>n pp response page m. page_request up n pp = Inr response \<longrightarrow>
                 json_body response = Inr page \<longrightarrow> pp_maxRecords pp = Some m \<longrightarrow>
                 length (page_records page) \<le> nat m"
    and "int (length acc) \<le> cap"
    and "pagination_loop up tid (Some cap) filt acc off pc sent = (Finished acc' n, s)"
  shows "int (length acc') \<le> cap"
  using assms(2,3)
proof (induction "max_pages - pc" arbitrary: acc off pc sent)
  case 0
  then show ?case by (simp add: loop_stop)
next
  case (Suc k)
  then have lt: "pc < max_pages" and k: "k = max_pages - Suc pc" by simp_all
  let ?pp = "build_page_params tid (Some cap) filt (length acc) off"
  have pp: "pp_maxRecords ?pp = Some (min 100 (cap - int (length acc)))"
    by (simp add: build_page_params_def)
  from lt show ?case
  proof (cases rule: loop_step[where up=up and tid=tid and maxrec="Some cap" and filt=filt
        and acc=acc and off=off and sent=sent])
    case (cap m)
    with Suc.prems show ?thesis by simp
  next
    case (fail e)
    with Suc.prems show ?thesis by simp
  next
    case (badjson response msg)
    with Suc.prems show ?thesis by simp
  next
    case (raise response data ex)
    with Suc.prems show ?thesis by simp
  next
    case (last response data acc'')
    from wb last(2,3) pp have "length (page_records data) \<le> nat (min 100 (cap - int (length acc)))"
      by blast
    with last(1) have "int (length (page_records data)) \<le> min 100 (cap - int (length acc))"
      by (simp add: min_def split: if_splits)
    with flatten_page_length[OF last(4)] have "int (length acc'') \<le> cap" by simp
    with last Suc.prems show ?thesis by simp
  next
    case (more response data acc'')
    from wb more(2,3) pp have "length (page_records data) \<le> nat (min 100 (cap - int (length acc)))"
      by blast
    with more(1) have "int (length (page_records data)) \<le> min 100 (cap - int (length acc))"
      by (simp add: min_def split: if_splits)
    with flatten_page_length[OF more(4)] have le: "int (length acc'') \<le> cap" by simp
    from more Suc.prems have "pagination_loop up tid (Some cap) filt acc'' (page_offset data) (Suc pc)
      (sent @ [?pp]) = (Finished acc' n, s)" by simp
    from Suc.hyps(1)[OF k le this] show ?thesis .
  qed
qed

text \<open>
  C2, as amended. For every request in which a record cap was given and validated, and
  every upstream whose pages hold no more records than the page request asks for (its
  \<^verbatim>\<open>maxRecords\<close> parameter, the minimum of 100 and the number of records still
  missing), the number of records in a response aggregated from the upstream (on a
  cache miss) never exceeds the cap. The validated cap is positive and at most
  \<^verbatim>\<open>MAX_TOTAL_RECORDS\<close>.
\<close>

theorem aggregation_within_cap:
  assumes wb: "\<forall>n pp response page m. page_request up n pp = Inr response \<longrightarrow>
                 json_body response = Inr page \<longrightarrow> pp_maxRecords pp = Some m \<longrightarrow>
                 length (page_records page) \<le> nat m"
    and valid: "validate_airtable_params cfg (baseId args) (tableId args) (maxRecords args)
                 (filterByFormula args) = Inr vp"
    and cap: "max_records vp = Some cap"
    and miss: "fst (request_lookup md5 cache t_get args) = Inr None"
  shows "int (length (body_records (fst (get_airtable_records cfg md5 up t_get t_set cache args))))
           \<le> cap \<and> 0 < cap \<and> cap \<le> MAX_TOTAL_RECORDS cfg"
proof -
  from validate_Inr[OF valid] cap have mr: "max_records_value (maxRecords args) = Some cap" by simp
  have pos: "0 < cap \<and> cap \<le> MAX_TOTAL_RECORDS cfg"
    using valid mr
    by (auto simp: validate_airtable_params_def max_records_errors_def max_records_value_def Let_def
        split: if_splits option.splits)
  obtain cache1 where lk: "request_lookup md5 cache t_get args = (Inr None, cache1)"
    using miss by (cases "request_lookup md5 cache t_get args") auto
  obtain out s where lp: "request_loop up args = (out, s)"
    by (cases "request_loop up args")
  have "int (length (body_records (fst (get_airtable_records cfg md5 up t_get t_set cache args)))) \<le> cap"
  proof (cases out)
    case (Returned resp)
    with lp loop_returned obtain msg where "resp = (ErrorBody msg, 502)" by blast
    with Returned lk lp pos show ?thesis
      unfolding handler_valid[OF valid] by (simp add: body_records_def)
  next
    case (Raised e)
    with lk lp pos show ?thesis
      unfolding handler_valid[OF valid] by (simp add: body_records_def)
  next
    case (Finished acc n)
    with lp mr have "pagination_loop up (tableId args) (Some cap) (filterByFormula args) [] None 0 []
        = (Finished acc n, s)" by simp
    from loop_cap_bound[OF wb _ this] pos have le: "int (length acc) \<le> cap" by simp
    show ?thesis
    proof (cases "dedup_loop {} [] acc")
      case (Inl e)
      with Finished lk lp pos show ?thesis
        unfolding handler_valid[OF valid] by (simp add: body_records_def)
    next
      case (Inr uniq)
      from build_response_length[OF Inr, of n] le
      have "int (length (records (build_response acc uniq n))) \<le> cap" by simp
      with Inr Finished lk lp show ?thesis
        unfolding handler_valid[OF valid] by (simp add: body_records_def)
    qed
  qed
  with pos show ?thesis by simp
qed

theorem aggregation_within_cap_witness:
  "int (length (body_records (fst (get_airtable_records ProductionConfig (\<lambda>s. s) up_honours_cap
      0 0 SimpleCache_init (ex_args (Some ''1'') None))))) \<le> 1"
proof -
  have wb: "\<forall>n pp response page m. page_request up_honours_cap n pp = Inr response \<longrightarrow>
                 json_body response = Inr page \<longrightarrow> pp_maxRecords pp = Some m \<longrightarrow>
                 length (page_records page) \<le> nat m"
    by (auto simp: up_honours_cap_def page_request_def raise_for_status_def ok_reply_def
        split: if_splits)
  have valid: "validate_airtable_params ProductionConfig (baseId (ex_args (Some ''1'') None))
      (tableId (ex_args (Some ''1'') None)) (maxRecords (ex_args (Some ''1'') None))
      (filterByFormula (ex_args (Some ''1'') None))
    = Inr \<lparr> base_id = Some ''appAAAAAAAAAAAAAA'', table_id = Some ''tblAAAAAAAAAAAAAA'',
            max_records = Some 1, filter_formula = None \<rparr>"
    by (simp add: handler_eval ProductionConfig_def Config_def)
  have cap: "max_records \<lparr> base_id = Some ''appAAAAAAAAAAAAAA'', table_id = Some ''tblAAAAAAAAAAAAAA'',
            max_records = Some 1, filter_formula = None \<rparr> = Some 1"
    by simp
  have miss: "fst (request_lookup (\<lambda>s. s) SimpleCache_init 0 (ex_args (Some ''1'') None))
      = Inr None"
    by (simp add: cache_get_def SimpleCache_init_def Let_def)
  from aggregation_within_cap[OF wb valid cap miss]
  show ?thesis by simp
qed

text \<open>
  The handler does not truncate what the upstream sends: with a cap of 1 and an upstream
  that answers the first request with two records, the response holds two records.
\<close>

theorem over_delivering_upstream_counterexample:
  "max_records_value (maxRecords (ex_args (Some ''1'') None)) = Some 1 \<and>
   snd (fst (get_airtable_records ProductionConfig (\<lambda>s. s) up_two_records 0 0 SimpleCache_init
      (ex_args (Some ''1'') None))) = 200 \<and>
   length (body_records (fst (get_airtable_records ProductionConfig (\<lambda>s. s) up_two_records 0 0
      SimpleCache_init (ex_args (Some ''1'') None)))) = 2"
  by (simp add: handler_eval up_two_records_def ProductionConfig_def Config_def body_records_def)

subsection \<open>Deduplication\<close>

text \<open>
  What \<open>dedup_loop\<close> returns, for any set of identifiers seen before: the records kept
  so far, followed by a subsequence of the input that holds, for each identifier not
  seen before, the first record of the input with that identifier.
\<close>

lemma dedup_loop_spec:
  assumes "dedup_loop seen uniq xs = Inr out"
  shows "\<exists>ys. out = uniq @ ys \<and> subseq ys xs \<and> distinct (map record_key ys) \<and>
           (\<forall>r\<in>set ys. \<forall>j\<in>seen. record_key r \<noteq> Inr j) \<and>
           (\<forall>r\<in>set xs. (\<exists>j\<in>seen. record_key r = Inr j) \<or> record_key r \<in> record_key ` set ys) \<and>
           (\<forall>r\<in>set ys. find (\<lambda>x. record_key x = record_key r) xs = Some r)"
  using assms
proof (induction xs arbitrary: seen uniq)
  case Nil
  then show ?case by simp
next
  case (Cons r rs)
  from Cons.prems obtain k where k: "record_key r = Inr k"
    by (auto simp: record_key_def split: sum.splits)
  show ?case
  proof (cases "k \<in> seen")
    case True
    with Cons.prems k have "dedup_loop seen uniq rs = Inr out" by (simp add: record_key_def)
    from Cons.IH[OF this] obtain ys where ys: "out = uniq @ ys" "subseq ys rs"
      "distinct (map record_key ys)" "\<forall>r\<in>set ys. \<forall>j\<in>seen. record_key r \<noteq> Inr j"
      "\<forall>r\<in>set rs. (\<exists>j\<in>seen. record_key r = Inr j) \<or> record_key r \<in> record_key ` set ys"
      "\<forall>r\<in>set ys. find (\<lambda>x. record_key x = record_key r) rs = Some r"
      by blast
    have "subseq ys (r # rs)" using ys(2) by (rule list_emb_Cons)
    moreover have "\<forall>x\<in>set (r # rs). (\<exists>j\<in>seen. record_key x = Inr j) \<or> record_key x \<in> record_key ` set ys"
      using ys(5) k True by auto
    moreover have "\<forall>x\<in>set ys. find (\<lambda>y. record_key y = record_key x) (r # rs) = Some x"
    proof
      fix x assume x: "x \<in> set ys"
      with ys(4) k True have "record_key r \<noteq> record_key x" by metis
      with ys(6) x show "find (\<lambda>y. record_key y = record_key x) (r # rs) = Some x" by simp
    qed
    ultimately show ?thesis using ys(1,3,4) by blast
  next
    case False
    with Cons.prems k have "dedup_loop (insert k seen) (uniq @ [r]) rs = Inr out"
      by (simp add: record_key_def)
    from Cons.IH[OF this] obtain ys where ys: "out = (uniq @ [r]) @ ys" "subseq ys rs"
      "distinct (map record_key ys)" "\<forall>x\<in>set ys. \<forall>j\<in>insert k seen. record_key x \<noteq> Inr j"
      "\<forall>x\<in>set rs. (\<exists>j\<in>insert k seen. record_key x = Inr j) \<or> record_key x \<in> record_key ` set ys"
      "\<forall>x\<in>set ys. find (\<lambda>y. record_key y = record_key x) rs = Some x"
      by blast
    have a: "out = uniq @ (r # ys)" using ys(1) by simp
    have b: "subseq (r # ys) (r # rs)" using ys(2) by simp
    have notk: "\<forall>x\<in>set ys. record_key x \<noteq> record_key r" using ys(4) k by (metis insertI1)
    have c: "distinct (map record_key (r # ys))" using ys(3) notk by (auto simp: image_iff)
    have d: "\<forall>x\<in>set (r # ys). \<forall>j\<in>seen. record_key x \<noteq> Inr j" using ys(4) k False by (metis insertI2 set_ConsD sum.inject(2))
    have e: "\<forall>x\<in>set (r # rs). (\<exists>j\<in>seen. record_key x = Inr j) \<or> record_key x \<in> record_key ` set (r # ys)"
      using ys(5) k by auto
    have f: "\<forall>x\<in>set (r # ys). find (\<lambda>y. record_key y = record_key x) (r # rs) = Some x"
    proof
      fix x assume "x \<in> set (r # ys)"
      then consider "x = r" | "x \<in> set ys" by auto
      then show "find (\<lambda>y. record_key y = record_key x) (r # rs) = Some x"
      proof cases
        case 1
        then show ?thesis by simp
      next
        case 2
        with notk have "record_key r \<noteq> record_key x" by auto
        with ys(6) 2 show ?thesis by simp
      qed
    qed
    from a b c d e f show ?thesis by blast
  qed
qed

lemma subseq_set: "subseq xs ys \<Longrightarrow> set xs \<subseteq> set ys"
  by (induction rule: list_emb.induct) auto

lemma dedup_first_seen:
  assumes "dedup_loop {} [] acc = Inr uniq"
  shows "subseq uniq acc" and "distinct (map record_key uniq)"
    and "record_key ` set uniq = record_key ` set acc"
    and "\<forall>r\<in>set uniq. find (\<lambda>x. record_key x = record_key r) acc = Some r"
proof -
  from dedup_loop_spec[OF assms] obtain ys where ys: "uniq = [] @ ys" "subseq ys acc"
    "distinct (map record_key ys)"
    "\<forall>r\<in>set acc. (\<exists>j\<in>{}. record_key r = Inr j) \<or> record_key r \<in> record_key ` set ys"
    "\<forall>r\<in>set ys. find (\<lambda>x. record_key x = record_key r) acc = Some r"
    by blast
  then have u: "uniq = ys" by simp
  show "subseq uniq acc" using ys(2) u by simp
  show "distinct (map record_key uniq)" using ys(3) u by simp
  show "\<forall>r\<in>set uniq. find (\<lambda>x. record_key x = record_key r) acc = Some r" using ys(5) u by simp
  have "set uniq \<subseteq> set acc" using ys(2) u by (simp add: subseq_set)
  moreover have "record_key ` set acc \<subseteq> record_key ` set uniq" using ys(4) u by auto
  ultimately show "record_key ` set uniq = record_key ` set acc" by blast
qed

lemma build_response_records:
  assumes "dedup_loop {} [] acc = Inr uniq"
  shows "records (build_response acc uniq n) = uniq"
proof (cases "length uniq = length acc")
  case True
  with dedup_first_seen(1)[OF assms] have "uniq = acc" by (rule subseq_same_length)
  then show ?thesis by (simp add: build_response_def Let_def)
next
  case False
  then show ?thesis by (simp add: build_response_def Let_def)
qed

lemma distinct_key_imp_distinct_id:
  "distinct (map record_key rs) \<Longrightarrow> distinct (map (\<lambda>r. record_get r ''id'') rs)"
proof (induction rs)
  case Nil
  then show ?case by simp
next
  case (Cons r rs)
  then have "record_key r \<notin> record_key ` set rs" and "distinct (map record_key rs)"
    by simp_all
  moreover have "record_get r ''id'' \<in> (\<lambda>x. record_get x ''id'') ` set rs \<Longrightarrow>
      record_key r \<in> record_key ` set rs"
    by (auto simp: record_key_def)
  ultimately show ?case using Cons.IH by auto
qed

lemma cache_unique_init: "cache_unique SimpleCache_init"
  by (simp add: cache_unique_def SimpleCache_init_def)

lemma cache_unique_clear: "cache_unique (cache_clear c)"
  by (simp add: cache_unique_def cache_clear_def)

lemma cache_unique_get:
  "cache_unique c \<Longrightarrow> cache_unique (snd (cache_get md5 c now b t f m ttl))"
  by (auto simp: cache_unique_def cache_get_def Let_def split: option.splits if_splits)

lemma cache_unique_get_hit:
  "cache_unique c \<Longrightarrow> cache_get md5 c now b t f m ttl = (Inr (Some d), c1) \<Longrightarrow>
   distinct (map record_key (records d))"
  by (auto simp: cache_unique_def cache_get_def Let_def split: option.splits if_splits)

lemma cache_unique_set:
  "cache_unique c \<Longrightarrow> distinct (map record_key (records d)) \<Longrightarrow>
   cache_unique (cache_set md5 c now b t d f m)"
  by (auto simp: cache_unique_def cache_set_def Let_def)

text \<open>
  C1. For every upstream behaviour, the response returned by the records endpoint holds
  no two records with the same identifier (as the Python set compares identifiers, and
  so also as JSON values), whether it is aggregated or served from a cache that earlier
  requests have filled; the handler keeps the cache in that state. On a cache miss the
  returned records are a subsequence of the accumulated list (first-seen order is
  preserved), every accumulated identifier is represented, and each returned record is
  the first accumulated record with its identifier.
\<close>

theorem aggregated_records_unique:
  assumes inv: "cache_unique cache"
    and run: "get_airtable_records cfg md5 up t_get t_set cache args
                = ((DataBody d, status), cache', sent)"
  shows "distinct (map record_key (records d)) \<and>
         distinct (map (\<lambda>r. record_get r ''id'') (records d)) \<and>
         cache_unique cache' \<and>
         (\<forall>acc n s. fst (request_lookup md5 cache t_get args) = Inr None \<longrightarrow>
            request_loop up args = (Finished acc n, s) \<longrightarrow>
              subseq (records d) acc \<and>
              record_key ` set (records d) = record_key ` set acc \<and>
              (\<forall>r\<in>set (records d). find (\<lambda>x. record_key x = record_key r) acc = Some r))"
proof (cases "validate_airtable_params cfg (baseId args) (tableId args) (maxRecords args) (filterByFormula args)")
  case (Inl msg)
  with run show ?thesis by (simp add: handler_invalid)
next
  case (Inr vp)
  note hv = handler_valid[OF Inr, of md5 up t_get t_set cache]
  obtain cached cache1 where lk: "request_lookup md5 cache t_get args = (cached, cache1)"
    by (cases "request_lookup md5 cache t_get args")
  from cache_unique_get[OF inv, of md5 t_get "baseId args" "tableId args" "filterByFormula args"
      "max_records_value (maxRecords args)" "if truthy (filterByFormula args) then 60 else 300"] lk
  have inv1: "cache_unique cache1" by simp
  consider (raised) ex where "cached = Inl ex" | (hit) c where "cached = Inr (Some c)"
    | (miss) "cached = Inr None"
    by (cases cached) auto
  then show ?thesis
  proof cases
    case raised
    with run show ?thesis unfolding hv lk by simp
  next
    case hit
    from run have "d = c \<and> cache' = cache1" unfolding hv lk hit by simp
    then have dc: "d = c" and cc: "cache' = cache1" by simp_all
    have A: "distinct (map record_key (records d))"
      using cache_unique_get_hit[OF inv lk[unfolded hit]] dc by simp
    have B: "distinct (map (\<lambda>r. record_get r ''id'') (records d))"
      using A by (rule distinct_key_imp_distinct_id)
    have C: "cache_unique cache'" using inv1 cc by simp
    have D: "fst (request_lookup md5 cache t_get args) \<noteq> Inr None" unfolding lk hit by simp
    from A B C D show ?thesis by blast
  next
    case miss
    obtain out s where lp: "request_loop up args = (out, s)"
      by (cases "request_loop up args")
    show ?thesis
    proof (cases out)
      case (Returned resp)
      with lp loop_returned obtain msg where "resp = (ErrorBody msg, 502)" by blast
      with run Returned show ?thesis unfolding hv lk miss lp by simp
    next
      case (Raised e)
      with run show ?thesis unfolding hv lk miss lp by simp
    next
      case (Finished acc n)
      show ?thesis
      proof (cases "dedup_loop {} [] acc")
        case (Inl e)
        with run Finished show ?thesis unfolding hv lk miss lp by simp
      next
        case dd: (Inr uniq)
        have res: "get_airtable_records cfg md5 up t_get t_set cache args =
            ((DataBody (build_response acc uniq n), 200),
             cache_set md5 cache1 t_set (baseId args) (tableId args)
               (build_response acc uniq n) (filterByFormula args)
               (max_records_value (maxRecords args)), s)"
          unfolding hv lk miss lp Finished by (simp add: dd)
        from run[unfolded res] have d: "d = build_response acc uniq n"
          and c: "cache' = cache_set md5 cache1 t_set (baseId args) (tableId args) d
              (filterByFormula args) (max_records_value (maxRecords args))"
          by auto
        have recs: "records d = uniq" unfolding d by (rule build_response_records[OF dd])
        note fs = dedup_first_seen[OF dd]
        have A: "distinct (map record_key (records d))" unfolding recs by (rule fs(2))
        have B: "distinct (map (\<lambda>r. record_get r ''id'') (records d))"
          using A by (rule distinct_key_imp_distinct_id)
        have C: "cache_unique cache'" unfolding c using inv1 A by (rule cache_unique_set)
        have D: "\<forall>acc' n' s'. fst (request_lookup md5 cache t_get args) = Inr None \<longrightarrow>
            request_loop up args = (Finished acc' n', s') \<longrightarrow>
              subseq (records d) acc' \<and>
              record_key ` set (records d) = record_key ` set acc' \<and>
              (\<forall>r\<in>set (records d). find (\<lambda>x. record_key x = record_key r) acc' = Some r)"
        proof (intro allI impI)
          fix acc' n' s'
          assume "request_loop up args = (Finished acc' n', s')"
          with lp Finished have "acc' = acc" by simp
          with fs(1,3,4) show "subseq (records d) acc' \<and>
              record_key ` set (records d) = record_key ` set acc' \<and>
              (\<forall>r\<in>set (records d). find (\<lambda>x. record_key x = record_key r) acc' = Some r)"
            unfolding recs by blast
        qed
        from A B C D show ?thesis by blast
      qed
    qed
  qed
qed

theorem aggregated_records_unique_witness:
  "map record_key (body_records (fst (get_airtable_records ProductionConfig (\<lambda>s. s) up_duplicate
      0 0 SimpleCache_init (ex_args None None))))
     = [Inr (KStr ''recA''), Inr (KStr ''recB''), Inr (KStr ''recC'')] \<and>
   distinct (map record_key (body_records (fst (get_airtable_records ProductionConfig (\<lambda>s. s)
      up_duplicate 0 0 SimpleCache_init (ex_args None None))))) \<and>
   cache_unique (fst (snd (get_airtable_records ProductionConfig (\<lambda>s. s) up_duplicate
      0 0 SimpleCache_init (ex_args None None))))"
proof -
  let ?run = "get_airtable_records ProductionConfig (\<lambda>s. s) up_duplicate 0 0 SimpleCache_init
      (ex_args None None)"
  have keys: "map record_key (body_records (fst ?run))
     = [Inr (KStr ''recA''), Inr (KStr ''recB''), Inr (KStr ''recC'')]"
    by (simp add: handler_eval up_duplicate_def body_records_def record_key_def)
  have "\<exists>d. fst (fst ?run) = DataBody d"
    by (simp add: handler_eval up_duplicate_def)
  then obtain d where d: "fst (fst ?run) = DataBody d" by blast
  then have run: "?run = ((DataBody d, snd (fst ?run)), fst (snd ?run), snd (snd ?run))"
    by (metis prod.collapse)
  from d have recs: "body_records (fst ?run) = records d" by (simp add: body_records_def)
  from aggregated_records_unique[OF cache_unique_init run]
  have "distinct (map record_key (records d))" and "cache_unique (fst (snd ?run))" by blast+
  with keys recs show ?thesis by simp
qed

subsection \<open>The counts of the response\<close>

text \<open>
  On a cache miss, \<^verbatim>\<open>total_records\<close> is the number of records returned,
  \<^verbatim>\<open>duplicates_removed\<close> is the number of accumulated records dropped by
  deduplication, and \<^verbatim>\<open>pages_fetched\<close> is the page count of the loop, which is the
  number of requests sent or one more.
\<close>

lemma pagination_info_counts:
  assumes valid: "validate_airtable_params cfg (baseId args) (tableId args) (maxRecords args)
                 (filterByFormula args) = Inr vp"
    and miss: "fst (request_lookup md5 cache t_get args) = Inr None"
    and run: "get_airtable_records cfg md5 up t_get t_set cache args
                = ((DataBody d, status), cache', sent)"
  shows "total_records (pagination_info d) = int (length (records d)) \<and>
         (\<exists>acc n. request_loop up args = (Finished acc n, sent) \<and>
            duplicates_removed (pagination_info d) = int (length acc) - int (length (records d)) \<and>
            pages_fetched (pagination_info d) = int n \<and>
            (n = length sent \<or> n = Suc (length sent)))"
proof -
  note hv = handler_valid[OF valid, of md5 up t_get t_set cache]
  obtain cache1 where lk: "request_lookup md5 cache t_get args = (Inr None, cache1)"
    using miss by (cases "request_lookup md5 cache t_get args") auto
  obtain out s where lp: "request_loop up args = (out, s)"
    by (cases "request_loop up args")
  show ?thesis
  proof (cases out)
    case (Returned resp)
    with lp loop_returned obtain msg where "resp = (ErrorBody msg, 502)" by blast
    with run Returned show ?thesis unfolding hv lk lp by simp
  next
    case (Raised e)
    with run show ?thesis unfolding hv lk lp by simp
  next
    case (Finished acc n)
    show ?thesis
    proof (cases "dedup_loop {} [] acc")
      case (Inl e)
      with run Finished show ?thesis unfolding hv lk lp by simp
    next
      case dd: (Inr uniq)
      have res: "get_airtable_records cfg md5 up t_get t_set cache args =
          ((DataBody (build_response acc uniq n), 200),
           cache_set md5 cache1 t_set (baseId args) (tableId args)
             (build_response acc uniq n) (filterByFormula args)
             (max_records_value (maxRecords args)), s)"
        unfolding hv lk lp Finished by (simp add: dd)
      from run[unfolded res] have d: "d = build_response acc uniq n" and s: "s = sent" by auto
      have pc: "n = length sent \<or> n = Suc (length sent)"
        using loop_page_count[of "[]" 0 up "tableId args" "max_records_value (maxRecords args)"
            "filterByFormula args" "[]" None acc n s] lp Finished s by simp
      have "total_records (pagination_info d) = int (length (records d))"
        and "duplicates_removed (pagination_info d) = int (length acc) - int (length (records d))"
        and "pages_fetched (pagination_info d) = int n"
        unfolding d by (simp_all add: build_response_def Let_def)
      with pc lp Finished s show ?thesis by blast
    qed
  qed
qed

text \<open>
  The scenario of three pages of 100, 100 and 42 records with distinct identifiers and
  no record cap: 242 records, 3 pages, no duplicate, 3 requests.
\<close>

lemma flatten_num_records:
  "flatten_page acc (map num_record ks) = Inr (acc @ map flat_num ks)"
  by (induction ks arbitrary: acc) (simp_all add: flatten_record_def num_record_def flat_num_def)

lemma dedup_loop_distinct:
  assumes "distinct ks" and "\<forall>k\<in>set ks. KInt (int k) \<notin> seen"
  shows "dedup_loop seen uniq (map flat_num ks) = Inr (uniq @ map flat_num ks)"
  using assms
proof (induction ks arbitrary: seen uniq)
  case Nil
  then show ?case by simp
next
  case (Cons k ks)
  have key: "hash_key (record_get (flat_num k) ''id'') = Inr (KInt (int k))"
    by (simp add: record_get_def flat_num_def)
  from Cons.prems have "distinct ks" and "\<forall>j\<in>set ks. KInt (int j) \<notin> insert (KInt (int k)) seen"
    by auto
  from Cons.IH[OF this, of "uniq @ [flat_num k]"] Cons.prems key show ?case by simp
qed

lemma three_pages_loop:
  "pagination_loop up_three_pages tid None filt [] None 0 [] =
     (Finished (map flat_num ([0..<100] @ [100..<200] @ [200..<242])) 3,
      [build_page_params tid None filt 0 None,
       build_page_params tid None filt 100 (Some ''page2''),
       build_page_params tid None filt 200 (Some ''page3'')])"
proof -
  have p3: "pagination_loop up_three_pages tid None filt
      (map flat_num [0..<100] @ map flat_num [100..<200]) (Some ''page3'') (Suc (Suc 0))
      [build_page_params tid None filt 0 None, build_page_params tid None filt 100 (Some ''page2'')]
    = (Finished (map flat_num ([0..<100] @ [100..<200] @ [200..<242])) (Suc (Suc (Suc 0))),
      [build_page_params tid None filt 0 None,
       build_page_params tid None filt 100 (Some ''page2''),
       build_page_params tid None filt 200 (Some ''page3'')])"
    by (subst pagination_loop.simps)
       (simp add: max_pages_def up_three_pages_def page_request_def raise_for_status_def ok_reply_def
          flatten_num_records Let_def del: upt_rec_numeral)
  have p2: "pagination_loop up_three_pages tid None filt (map flat_num [0..<100]) (Some ''page2'') (Suc 0)
      [build_page_params tid None filt 0 None]
    = pagination_loop up_three_pages tid None filt
      (map flat_num [0..<100] @ map flat_num [100..<200]) (Some ''page3'') (Suc (Suc 0))
      [build_page_params tid None filt 0 None, build_page_params tid None filt 100 (Some ''page2'')]"
    by (subst pagination_loop.simps)
       (simp add: max_pages_def up_three_pages_def page_request_def raise_for_status_def ok_reply_def
          flatten_num_records Let_def del: upt_rec_numeral)
  have p1: "pagination_loop up_three_pages tid None filt [] None 0 []
    = pagination_loop up_three_pages tid None filt (map flat_num [0..<100]) (Some ''page2'') (Suc 0)
      [build_page_params tid None filt 0 None]"
    by (subst pagination_loop.simps)
       (simp add: max_pages_def up_three_pages_def page_request_def raise_for_status_def ok_reply_def
          flatten_num_records Let_def del: upt_rec_numeral)
  from p1 p2 p3 show ?thesis by (simp add: numeral_3_eq_3)
qed

lemma three_pages_scenario:
  "fst (get_airtable_records cfg (\<lambda>s. s) up_three_pages t_get t_set SimpleCache_init (ex_args None None))
     = (DataBody \<lparr> records = map flat_num ([0..<100] @ [100..<200] @ [200..<242]), offset = None,
          pagination_info = \<lparr> total_records = 242, pages_fetched = 3,
            server_side_pagination = True, duplicates_removed = 0 \<rparr> \<rparr>, 200) \<and>
   length (snd (snd (get_airtable_records cfg (\<lambda>s. s) up_three_pages t_get t_set SimpleCache_init
     (ex_args None None)))) = 3"
proof -
  let ?acc = "map flat_num ([0..<100] @ [100..<200] @ [200..<242])"
  have dd: "dedup_loop {} [] ?acc = Inr ?acc"
  proof -
    have "distinct ([0..<100] @ [100..<200] @ [200..<242::nat])"
      by (auto simp del: upt_rec_numeral)
    from dedup_loop_distinct[OF this, of "{}" "[]"] show ?thesis by simp
  qed
  have len: "length ?acc = 242" by (simp del: upt_rec_numeral)
  have run: "get_airtable_records cfg (\<lambda>s. s) up_three_pages t_get t_set SimpleCache_init
      (ex_args None None) =
      ((DataBody (build_response ?acc ?acc 3), 200),
       cache_set (\<lambda>s. s) SimpleCache_init t_set (Some ''appAAAAAAAAAAAAAA'')
         (Some ''tblAAAAAAAAAAAAAA'') (build_response ?acc ?acc 3) None None,
       [build_page_params (Some ''tblAAAAAAAAAAAAAA'') None None 0 None,
        build_page_params (Some ''tblAAAAAAAAAAAAAA'') None None 100 (Some ''page2''),
        build_page_params (Some ''tblAAAAAAAAAAAAAA'') None None 200 (Some ''page3'')])"
    by (simp add: get_airtable_records_def validate_defs ex_args_def cache_get_def
        generate_key_def SimpleCache_init_def three_pages_loop dd Let_def
        del: upt_rec_numeral map_append)
  have resp: "build_response ?acc ?acc 3 =
      \<lparr> records = ?acc, offset = None,
        pagination_info = \<lparr> total_records = 242, pages_fetched = 3,
          server_side_pagination = True, duplicates_removed = 0 \<rparr> \<rparr>"
    unfolding build_response_def Let_def len by simp
  show ?thesis unfolding run resp by simp
qed

text \<open>
  C7. In the response of a successful aggregation, \<^verbatim>\<open>pages_fetched\<close> is to equal the
  number of upstream page requests performed, \<^verbatim>\<open>total_records\<close> the number of records
  returned and \<^verbatim>\<open>duplicates_removed\<close> the number of records dropped. The code counts a
  page before it tests the cap: with a cap of 1 and an upstream that answers the first
  request with the one record asked for and a cursor, the loop is entered a second time,
  counts page 2 and leaves at the cap test without a request. The response reports
  \<^verbatim>\<open>pages_fetched = 2\<close> after a single request.
\<close>

theorem pages_fetched_counts_unsent_request:
  "(case fst (fst (get_airtable_records ProductionConfig (\<lambda>s. s) up_one_then_more 0 0
        SimpleCache_init (ex_args (Some ''1'') None))) of
      DataBody d \<Rightarrow> pagination_info d =
        \<lparr> total_records = 1, pages_fetched = 2, server_side_pagination = True,
          duplicates_removed = 0 \<rparr>
    | ErrorBody msg \<Rightarrow> False) \<and>
   length (snd (snd (get_airtable_records ProductionConfig (\<lambda>s. s) up_one_then_more 0 0
        SimpleCache_init (ex_args (Some ''1'') None)))) = 1"
  by (simp add: handler_eval up_one_then_more_def ProductionConfig_def Config_def)

subsection \<open>Flattening\<close>

text \<open>
  C10. In a flattened record the upstream field values are merged after the record's
  identifier and creation timestamp. For every upstream record whose \<^verbatim>\<open>fields\<close>
  contain a key \<^verbatim>\<open>id\<close>, the field value is the \<^verbatim>\<open>id\<close> of the flattened record, and
  the deduplication step decides on that field value; a field \<^verbatim>\<open>createdTime\<close> likewise
  replaces the timestamp. Where \<^verbatim>\<open>fields\<close> lack the key, the flattened record keeps the
  upstream record's identifier, respectively its timestamp. Every other entry is the
  field's.
\<close>

theorem fields_override_identifier:
  assumes "rec_id r = Some i" and "rec_createdTime r = Some ct" and "rec_fields r = Some fs"
  shows "\<exists>fr. flatten_record r = Inr fr \<and>
           (\<forall>v. fs ''id'' = Some v \<longrightarrow> fr ''id'' = Some v \<and> record_get fr ''id'' = v) \<and>
           (\<forall>v. fs ''id'' = Some v \<longrightarrow>
              (\<forall>seen uniq rs. dedup_loop seen uniq (fr # rs) =
                 (case hash_key v of
                    Inl e \<Rightarrow> Inl e
                  | Inr k \<Rightarrow> if k \<notin> seen then dedup_loop (insert k seen) (uniq @ [fr]) rs
                            else dedup_loop seen uniq rs))) \<and>
           (\<forall>v. fs ''createdTime'' = Some v \<longrightarrow> fr ''createdTime'' = Some v) \<and>
           (fs ''id'' = None \<longrightarrow> fr ''id'' = Some i \<and> record_get fr ''id'' = i) \<and>
           (fs ''createdTime'' = None \<longrightarrow> fr ''createdTime'' = Some ct) \<and>
           (\<forall>k. k \<noteq> ''id'' \<longrightarrow> k \<noteq> ''createdTime'' \<longrightarrow> fr k = fs k)"
proof -
  let ?fr = "[''id'' \<mapsto> i, ''createdTime'' \<mapsto> ct] ++ fs"
  have fl: "flatten_record r = Inr ?fr" using assms by (simp add: flatten_record_def)
  have a: "\<forall>v. fs ''id'' = Some v \<longrightarrow> ?fr ''id'' = Some v \<and> record_get ?fr ''id'' = v"
    by (simp add: record_get_def map_add_def)
  have b: "\<forall>v. fs ''id'' = Some v \<longrightarrow> (\<forall>seen uniq rs. dedup_loop seen uniq (?fr # rs) =
                 (case hash_key v of
                    Inl e \<Rightarrow> Inl e
                  | Inr k \<Rightarrow> if k \<notin> seen then dedup_loop (insert k seen) (uniq @ [?fr]) rs
                            else dedup_loop seen uniq rs))"
    using a by simp
  have c: "\<forall>v. fs ''createdTime'' = Some v \<longrightarrow> ?fr ''createdTime'' = Some v"
    by (simp add: map_add_def)
  have d: "fs ''id'' = None \<longrightarrow> ?fr ''id'' = Some i \<and> record_get ?fr ''id'' = i"
    by (simp add: record_get_def map_add_def)
  have e: "fs ''createdTime'' = None \<longrightarrow> ?fr ''createdTime'' = Some ct"
    by (simp add: map_add_def)
  have f: "\<forall>k. k \<noteq> ''id'' \<longrightarrow> k \<noteq> ''createdTime'' \<longrightarrow> ?fr k = fs k"
    by (simp add: map_add_def split: option.splits)
  show ?thesis
    by (rule exI[of _ ?fr]) (intro conjI fl a b c d e f)
qed

theorem fields_override_identifier_witness:
  "(\<exists>fr. flatten_record (ex_field_record ''recA'' 7) = Inr fr \<and> fr ''id'' = Some (JInt 7) \<and>
         fr ''createdTime'' = Some (JStr ''2024-01-01T00:00:00.000Z'') \<and>
         dedup_loop {KInt 7} [] [fr] = Inr []) \<and>
   map (\<lambda>r. record_get r ''id'') (body_records (fst (get_airtable_records ProductionConfig
      (\<lambda>s. s) up_field_ids 0 0 SimpleCache_init (ex_args None None)))) = [JInt 7]"
proof -
  let ?fs = "[''id'' \<mapsto> JInt 7, ''Name'' \<mapsto> JStr ''Widget'']"
  have h1: "rec_id (ex_field_record ''recA'' 7) = Some (JStr ''recA'')"
    and h2: "rec_createdTime (ex_field_record ''recA'' 7) = Some (JStr ''2024-01-01T00:00:00.000Z'')"
    and h3: "rec_fields (ex_field_record ''recA'' 7) = Some ?fs"
    by (simp_all add: ex_field_record_def)
  from fields_override_identifier[OF h1 h2 h3]
  obtain fr where fr: "flatten_record (ex_field_record ''recA'' 7) = Inr fr"
    and ov: "\<forall>v. ?fs ''id'' = Some v \<longrightarrow> fr ''id'' = Some v \<and> record_get fr ''id'' = v"
    and dd: "\<forall>v. ?fs ''id'' = Some v \<longrightarrow>
              (\<forall>seen uniq rs. dedup_loop seen uniq (fr # rs) =
                 (case hash_key v of
                    Inl e \<Rightarrow> Inl e
                  | Inr k \<Rightarrow> if k \<notin> seen then dedup_loop (insert k seen) (uniq @ [fr]) rs
                            else dedup_loop seen uniq rs))"
    and ct: "?fs ''createdTime'' = None \<longrightarrow>
              fr ''createdTime'' = Some (JStr ''2024-01-01T00:00:00.000Z'')"
    by (elim exE conjE)
  have k: "?fs ''id'' = Some (JInt 7)" by simp
  from ov k have id: "fr ''id'' = Some (JInt 7)" by simp
  from dd k have "dedup_loop {KInt 7} [] (fr # []) =
      (case hash_key (JInt 7) of
         Inl e \<Rightarrow> Inl e
       | Inr k \<Rightarrow> if k \<notin> {KInt 7} then dedup_loop (insert k {KInt 7}) ([] @ [fr]) []
                 else dedup_loop {KInt 7} [] [])"
    by (elim allE impE) assumption+
  then have d1: "dedup_loop {KInt 7} [] [fr] = Inr []" by simp
  from ct have c1: "fr ''createdTime'' = Some (JStr ''2024-01-01T00:00:00.000Z'')" by simp
  have run: "map (\<lambda>r. record_get r ''id'') (body_records (fst (get_airtable_records
      ProductionConfig (\<lambda>s. s) up_field_ids 0 0 SimpleCache_init (ex_args None None)))) = [JInt 7]"
    by (simp add: handler_eval up_field_ids_def ex_field_record_def body_records_def map_add_def)
  have "\<exists>fr. flatten_record (ex_field_record ''recA'' 7) = Inr fr \<and> fr ''id'' = Some (JInt 7) \<and>
         fr ''createdTime'' = Some (JStr ''2024-01-01T00:00:00.000Z'') \<and>
         dedup_loop {KInt 7} [] [fr] = Inr []"
    by (rule exI[of _ fr]) (intro conjI fr id c1 d1)
  with run show ?thesis by (rule conjI[rotated])
qed

end
